theory Spec2Isabelle
  imports Main
begin

section \<open>Device API and scoped build configuration (util.hpp)\<close>

text \<open>
  Handles of the device API are identities: a context and a device are numbers, a
  command queue is the pair it was created from. A program is the source text and the
  option string it was built from; a kernel is a program and an entry point.
\<close>

type_synonym cl_context = nat
type_synonym cl_device_id = nat
type_synonym cl_program = "string \<times> string"
type_synonym cl_kernel = "cl_program \<times> string"

record command_queue =
  queue_context :: cl_context
  queue_device :: cl_device_id

text \<open>
  What the device API answers: the devices of a context, the local memory of a
  device, the local memory and the work-group limit of a kernel on a device, and
  whether a program text builds with an option string.
\<close>

record cl_runtime =
  context_devices :: "cl_context \<Rightarrow> cl_device_id list"
  device_local_mem_size :: "cl_device_id \<Rightarrow> nat"
  kernel_local_mem_size :: "cl_kernel \<Rightarrow> cl_device_id \<Rightarrow> nat"
  kernel_work_group_size :: "cl_kernel \<Rightarrow> cl_device_id \<Rightarrow> nat"
  program_builds :: "string \<Rightarrow> string \<Rightarrow> bool"

datatype error = ConfigurationError | CompileError | DeviceError | OutOfBounds | Uninitialized | DataRace

text \<open>
  \<^verbatim>\<open>device_options<kind>::options\<close> is a
  \<^verbatim>\<open>std::map<cl_device_id, std::vector<std::string>>\<close>: a partial map from
  devices to stacks, the top of a stack being the last element. \<^verbatim>\<open>options[dev()]\<close>
  inserts an empty vector for a device the map does not hold yet.
\<close>

type_synonym options = "cl_device_id \<rightharpoonup> string list"

definition at :: "options \<Rightarrow> cl_device_id \<Rightarrow> string list" where
  "at opts dev = (case opts dev of None \<Rightarrow> [] | Some v \<Rightarrow> v)"

definition get :: "options \<Rightarrow> cl_device_id \<Rightarrow> string \<times> options" where
  "get opts dev =
     (let opts1 = (if at opts dev = [] then opts(dev \<mapsto> at opts dev @ ['''']) else opts(dev \<mapsto> at opts dev))
      in (last (at opts1 dev), opts1))"

definition push :: "options \<Rightarrow> cl_device_id \<Rightarrow> string \<Rightarrow> options" where
  "push opts dev str = opts(dev \<mapsto> at opts dev @ [str])"

definition pop :: "options \<Rightarrow> cl_device_id \<Rightarrow> options" where
  "pop opts dev = (if at opts dev \<noteq> [] then opts(dev \<mapsto> butlast (at opts dev)) else opts(dev \<mapsto> at opts dev))"

text \<open>The bulk variants walk the queue list and act on each queue's device.\<close>

fun push_queues :: "options \<Rightarrow> command_queue list \<Rightarrow> string \<Rightarrow> options" where
  "push_queues opts [] str = opts"
| "push_queues opts (q # qs) str = push_queues (push opts (queue_device q) str) qs str"

fun pop_queues :: "options \<Rightarrow> command_queue list \<Rightarrow> options" where
  "pop_queues opts [] = opts"
| "pop_queues opts (q # qs) = pop_queues (pop opts (queue_device q)) qs"

text \<open>\<^verbatim>\<open>alignup(n, m)\<close>: \<^verbatim>\<open>(n + m - 1) / m * m\<close>.\<close>

definition alignup :: "nat \<Rightarrow> nat \<Rightarrow> nat" where
  "alignup n m = (n + m - 1) div m * m"

text \<open>
  \<^verbatim>\<open>kernel_workgroup_size\<close>: starting from 1024, halve while the size exceeds the
  limit the device reports for the kernel.
\<close>

function halve_above :: "nat \<Rightarrow> nat \<Rightarrow> nat" where
  "halve_above wgsz dev_wgsz = (if wgsz > dev_wgsz then halve_above (wgsz div 2) dev_wgsz else wgsz)"
  by pat_completeness auto
termination
  by (relation "measure (\<lambda>(wgsz, dev_wgsz). wgsz)") auto

declare halve_above.simps [simp del]

definition kernel_workgroup_size :: "cl_runtime \<Rightarrow> cl_kernel \<Rightarrow> cl_device_id \<Rightarrow> nat" where
  "kernel_workgroup_size rt krn device = halve_above 1024 (kernel_work_group_size rt krn device)"

section \<open>Filter construction (stencil.hpp, \<^verbatim>\<open>stencil<T>::init\<close>)\<close>

text \<open>
  The element type \<^verbatim>\<open>T\<close> is modelled by a commutative ring \<open>'a\<close> with exact
  arithmetic (the integers, a machine word with wrap-around, the reals); rounding of
  floating-point types is not modelled. What the code needs to know of \<^verbatim>\<open>T\<close>
  besides its arithmetic, its device-side name and its size in bytes, is a value of
  \<open>real_type\<close>. Sizes and indices are unbounded numbers: the filter is documented to
  be small enough for the local memory of a device, far below the range where the
  conversions between \<^verbatim>\<open>uint\<close>, \<^verbatim>\<open>int\<close> and \<^verbatim>\<open>size_t\<close> lose anything.
\<close>

record real_type =
  type_name :: string
  size_of :: nat
  size_t_name :: string

text \<open>
  The process-wide state: the two option stacks of util.hpp, and the static members of
  the class templates. \<^verbatim>\<open>stencil<T>\<close> has its maps \<^verbatim>\<open>compiled\<close>, \<^verbatim>\<open>conv_local\<close>,
  \<^verbatim>\<open>conv_local_big\<close>, \<^verbatim>\<open>conv_remote\<close> and \<^verbatim>\<open>wgsize\<close> once for every element type
  \<^verbatim>\<open>T\<close>, and \<^verbatim>\<open>gstencil<T>::exdata<func>\<close> its maps once for every element type and
  every transform: the fields are indexed by the element type, and those of the
  generalized filter by the transform's device-side name as well, before the context.
  \<open>compilations\<close> and \<open>g_compilations\<close> are not in the code: they count, for each
  key, the builds that the two compilation sites have completed.
\<close>

record statics =
  compile_options :: options
  program_header :: options
  compiled :: "real_type \<Rightarrow> cl_context \<Rightarrow> bool"
  conv_local :: "real_type \<Rightarrow> cl_context \<rightharpoonup> cl_kernel"
  conv_local_big :: "real_type \<Rightarrow> cl_context \<rightharpoonup> cl_kernel"
  conv_remote :: "real_type \<Rightarrow> cl_context \<rightharpoonup> cl_kernel"
  wgsize :: "real_type \<Rightarrow> cl_context \<Rightarrow> nat"
  g_compiled :: "real_type \<Rightarrow> string \<Rightarrow> cl_context \<Rightarrow> bool"
  g_conv_local :: "real_type \<Rightarrow> string \<Rightarrow> cl_context \<rightharpoonup> cl_kernel"
  g_conv_remote :: "real_type \<Rightarrow> string \<Rightarrow> cl_context \<rightharpoonup> cl_kernel"
  g_wgsize :: "real_type \<Rightarrow> string \<Rightarrow> cl_context \<Rightarrow> nat"
  compilations :: "real_type \<Rightarrow> cl_context \<Rightarrow> nat"
  g_compilations :: "real_type \<Rightarrow> string \<Rightarrow> cl_context \<Rightarrow> nat"

definition get_compile_options :: "statics \<Rightarrow> cl_device_id \<Rightarrow> string \<times> statics" where
  "get_compile_options g dev =
     (case get (compile_options g) dev of (str, opts) \<Rightarrow> (str, g\<lparr>compile_options := opts\<rparr>))"

definition get_program_header :: "statics \<Rightarrow> cl_device_id \<Rightarrow> string \<times> statics" where
  "get_program_header g dev =
     (case get (program_header g) dev of (str, opts) \<Rightarrow> (str, g\<lparr>program_header := opts\<rparr>))"

definition nl :: string where
  "nl = [CHR 0x0A]"

definition standard_kernel_header :: "statics \<Rightarrow> cl_device_id \<Rightarrow> string \<times> statics" where
  "standard_kernel_header g dev =
     (case get_program_header g dev of (hdr, g1) \<Rightarrow>
        (''#if defined(cl_khr_fp64)'' @ nl @
         ''#  pragma OPENCL EXTENSION cl_khr_fp64: enable'' @ nl @
         ''#elif defined(cl_amd_fp64)'' @ nl @
         ''#  pragma OPENCL EXTENSION cl_amd_fp64: enable'' @ nl @
         ''#endif'' @ nl @ hdr, g1))"

text \<open>
  \<^verbatim>\<open>build_sources(context, source, options = "")\<close>: the program is built for the
  devices of the context with \<^verbatim>\<open>options + " " + get_compile_options(device[0])\<close>;
  a build that fails rethrows, and nothing is returned.
\<close>

definition build_sources ::
  "cl_runtime \<Rightarrow> statics \<Rightarrow> cl_context \<Rightarrow> string \<Rightarrow> string \<Rightarrow> error + (cl_program \<times> statics)" where
  "build_sources rt g context source opts =
     (case context_devices rt context of
        [] \<Rightarrow> Inl DeviceError
      | dev0 # _ \<Rightarrow>
          (case get_compile_options g dev0 of (copts, g1) \<Rightarrow>
             if program_builds rt source (opts @ '' '' @ copts)
             then Inr ((source, opts @ '' '' @ copts), g1)
             else Inl CompileError))"

text \<open>
  The program text that \<^verbatim>\<open>init\<close> generates. \<open>size_t\<close> stands for
  \<^verbatim>\<open>type_name<size_t>()\<close>. The meaning of the three kernels is given by the
  functions of the next section.
\<close>

definition conv_local_text :: "string \<Rightarrow> string" where
  "conv_local_text size_t =
     ''kernel void conv_local('' @ nl @
     ''    '' @ size_t @ '' n,'' @ nl @
     ''    int lhalo,'' @ nl @
     ''    int rhalo,'' @ nl @
     ''    global const real *x,'' @ nl @
     ''    global const real *s,'' @ nl @
     ''    global real *y,'' @ nl @
     ''    real alpha, real beta,'' @ nl @
     ''    local real *loc_buf'' @ nl @
     ''    )'' @ nl @
     ''{'' @ nl @
     ''    local real *stencil = loc_buf;'' @ nl @
     ''    local real *xbuf    = loc_buf + lhalo + rhalo + 1 + lhalo;'' @ nl @
     ''    size_t block_size = get_local_size(0);'' @ nl @
     ''    long   g_id = get_global_id(0);'' @ nl @
     ''    int    l_id = get_local_id(0);'' @ nl @
     ''    if (l_id < lhalo + rhalo + 1)'' @ nl @
     ''        stencil[l_id] = s[l_id];'' @ nl @
     ''    stencil += lhalo;'' @ nl @
     ''    if (g_id < n) {'' @ nl @
     ''        xbuf[l_id] = x[g_id];'' @ nl @
     ''        if (l_id < lhalo && g_id >= lhalo)'' @ nl @
     ''            xbuf[l_id - lhalo] = x[g_id - lhalo];'' @ nl @
     ''        if (l_id + rhalo < block_size || g_id + rhalo < n)'' @ nl @
     ''            xbuf[l_id + rhalo] = x[g_id + rhalo];'' @ nl @
     ''    }'' @ nl @
     ''    barrier(CLK_LOCAL_MEM_FENCE);'' @ nl @
     ''    if (g_id < n) {'' @ nl @
     ''        real sum = 0;'' @ nl @
     ''        for(int k = -lhalo; k <= rhalo; k++)'' @ nl @
     ''            if (g_id + k >= 0 && g_id + k < n)'' @ nl @
     ''                sum += stencil[k] * xbuf[l_id + k];'' @ nl @
     ''        if (alpha)'' @ nl @
     ''            y[g_id] = alpha * y[g_id] + beta * sum;'' @ nl @
     ''        else'' @ nl @
     ''            y[g_id] = beta * sum;'' @ nl @
     ''    }'' @ nl @
     ''}'' @ nl"

definition conv_local_big_text :: "string \<Rightarrow> string" where
  "conv_local_big_text size_t =
     ''kernel void conv_local_big('' @ nl @
     ''    '' @ size_t @ '' n,'' @ nl @
     ''    int lhalo,'' @ nl @
     ''    int rhalo,'' @ nl @
     ''    global const real *x,'' @ nl @
     ''    global const real *s,'' @ nl @
     ''    global real *y,'' @ nl @
     ''    real alpha, real beta'' @ nl @
     ''    )'' @ nl @
     ''{'' @ nl @
     ''    long g_id = get_global_id(0);'' @ nl @
     ''    s += lhalo;'' @ nl @
     ''    if (g_id < n) {'' @ nl @
     ''        real sum = 0;'' @ nl @
     ''        for(int k = -lhalo; k <= rhalo; k++)'' @ nl @
     ''            if (g_id + k >= 0 && g_id + k < n)'' @ nl @
     ''                sum += s[k] * x[g_id + k];'' @ nl @
     ''        if (alpha)'' @ nl @
     ''            y[g_id] = alpha * y[g_id] + beta * sum;'' @ nl @
     ''        else'' @ nl @
     ''            y[g_id] = beta * sum;'' @ nl @
     ''    }'' @ nl @
     ''}'' @ nl"

definition conv_remote_text :: "string \<Rightarrow> string" where
  "conv_remote_text size_t =
     ''kernel void conv_remote('' @ nl @
     ''    '' @ size_t @ '' n,'' @ nl @
     ''    char has_left,'' @ nl @
     ''    char has_right,'' @ nl @
     ''    int lhalo,'' @ nl @
     ''    int rhalo,'' @ nl @
     ''    global const real *x,'' @ nl @
     ''    global const real *h,'' @ nl @
     ''    global const real *s,'' @ nl @
     ''    global real *y,'' @ nl @
     ''    real beta'' @ nl @
     ''    )'' @ nl @
     ''{'' @ nl @
     ''    long g_id = get_global_id(0);'' @ nl @
     ''    global const real *xl = h + lhalo;'' @ nl @
     ''    global const real *xr = h + lhalo;'' @ nl @
     ''    s += lhalo;'' @ nl @
     ''    if (g_id < lhalo) {'' @ nl @
     ''        real sum = 0;'' @ nl @
     ''        for(int k = -lhalo; k < 0; k++)'' @ nl @
     ''            if (g_id + k < 0)'' @ nl @
     ''                sum += s[k] * (has_left ? xl[g_id + k] : x[0]);'' @ nl @
     ''        y[g_id] += beta * sum;'' @ nl @
     ''    }'' @ nl @
     ''    if (g_id < rhalo) {'' @ nl @
     ''        real sum = 0;'' @ nl @
     ''        for(int k = 1; k <= rhalo; k++)'' @ nl @
     ''            if (g_id + k - rhalo >= 0)'' @ nl @
     ''                sum += s[k] * (has_right ? xr[g_id + k - rhalo] : x[n - 1]);'' @ nl @
     ''        y[n - rhalo + g_id] += beta * sum;'' @ nl @
     ''    }'' @ nl @
     ''}'' @ nl"

text \<open>
  \<^verbatim>\<open>source << standard_kernel_header << "typedef " << type_name<T>() << " real;\n" ...\<close>:
  \<^verbatim>\<open>standard_kernel_header\<close> is a function of util.hpp, and it is not called here.
  The stream receives the function itself, which converts to \<^verbatim>\<open>bool\<close> and prints
  as \<^verbatim>\<open>1\<close>; neither option stack is read while the text is generated.
\<close>

definition stencil_source :: "real_type \<Rightarrow> string" where
  "stencil_source ty =
     ''1'' @ ''typedef '' @ type_name ty @ '' real;'' @ nl @
     conv_local_text (size_t_name ty) @
     conv_local_big_text (size_t_name ty) @
     conv_remote_text (size_t_name ty)"

text \<open>
  The body of \<^verbatim>\<open>if (!compiled[context()]) { ... }\<close>: build the program, keep its
  three kernels and the smallest of their work-group sizes on this queue's device
  under the context, and mark the context compiled.
\<close>

definition compile :: "cl_runtime \<Rightarrow> real_type \<Rightarrow> statics \<Rightarrow> command_queue \<Rightarrow> error + statics" where
  "compile rt ty g q =
     (if compiled g ty (queue_context q) then Inr g
      else
        (case build_sources rt g (queue_context q) (stencil_source ty) [] of
           Inl e \<Rightarrow> Inl e
         | Inr (program, g1) \<Rightarrow>
             Inr (g1\<lparr>
               conv_local := (conv_local g1)
                 (ty := (conv_local g1 ty)(queue_context q \<mapsto> (program, ''conv_local''))),
               conv_local_big := (conv_local_big g1)
                 (ty := (conv_local_big g1 ty)(queue_context q \<mapsto> (program, ''conv_local_big''))),
               conv_remote := (conv_remote g1)
                 (ty := (conv_remote g1 ty)(queue_context q \<mapsto> (program, ''conv_remote''))),
               wgsize := (wgsize g1)
                 (ty := (wgsize g1 ty)(queue_context q :=
                    min (min (kernel_workgroup_size rt (program, ''conv_local'') (queue_device q))
                             (kernel_workgroup_size rt (program, ''conv_remote'') (queue_device q)))
                        (kernel_workgroup_size rt (program, ''conv_local_big'') (queue_device q)))),
               compiled := (compiled g1)
                 (ty := (compiled g1 ty)(queue_context q := True)),
               compilations := (compilations g1)
                 (ty := (compilations g1 ty)
                    (queue_context q := Suc (compilations g1 ty (queue_context q))))\<rparr>)))"

text \<open>
  \<^verbatim>\<open>uint smem = (CL_DEVICE_LOCAL_MEM_SIZE - CL_KERNEL_LOCAL_MEM_SIZE) / sizeof(T)\<close>:
  the difference of two 64-bit unsigned numbers, divided, stored in 32 bits. A context
  that holds no \<^verbatim>\<open>conv_local\<close> kernel gives a null kernel, whose query fails.
\<close>

definition smem_of :: "cl_runtime \<Rightarrow> real_type \<Rightarrow> statics \<Rightarrow> command_queue \<Rightarrow> error + nat" where
  "smem_of rt ty g q =
     (case conv_local g ty (queue_context q) of
        None \<Rightarrow> Inl DeviceError
      | Some krn \<Rightarrow>
          Inr (nat (((int (device_local_mem_size rt (queue_device q))
                      - int (kernel_local_mem_size rt krn (queue_device q))) mod 2 ^ 64)
                    div int (size_of ty) mod 2 ^ 32)))"

text \<open>
  \<^verbatim>\<open>while (wgs[d] >= data.size() && wgs[d] + 2 * data.size() > smem) wgs[d] /= 2;\<close>
\<close>

function shrink :: "nat \<Rightarrow> nat \<Rightarrow> nat \<Rightarrow> nat" where
  "shrink w sz smem = (if w \<ge> sz \<and> w + 2 * sz > smem then shrink (w div 2) sz smem else w)"
  by pat_completeness auto
termination
  by (relation "measure (\<lambda>(w, sz, smem). w)") auto

declare shrink.simps [simp del]

text \<open>The choice between the fast kernel and the fallback, with the work-group size.\<close>

definition plan :: "nat \<Rightarrow> nat \<Rightarrow> nat \<Rightarrow> bool \<times> nat" where
  "plan wgsize0 sz smem =
     (if shrink wgsize0 sz smem < sz then (False, wgsize0) else (True, shrink wgsize0 sz smem))"

text \<open>The first loop of \<^verbatim>\<open>init\<close>, one queue after the other.\<close>

fun init_devices ::
  "cl_runtime \<Rightarrow> real_type \<Rightarrow> nat \<Rightarrow> statics \<Rightarrow> command_queue list \<Rightarrow> error + (statics \<times> (bool \<times> nat) list)" where
  "init_devices rt ty sz g [] = Inr (g, [])"
| "init_devices rt ty sz g (q # qs) =
     (case compile rt ty g q of
        Inl e \<Rightarrow> Inl e
      | Inr g1 \<Rightarrow>
          (case smem_of rt ty g1 q of
             Inl e \<Rightarrow> Inl e
           | Inr smem \<Rightarrow>
               (case init_devices rt ty sz g1 qs of
                  Inl e \<Rightarrow> Inl e
                | Inr (g2, rest) \<Rightarrow> Inr (g2, plan (wgsize g1 ty (queue_context q)) sz smem # rest))))"

text \<open>
  The filter object. Device memory that was allocated and never written holds no
  value (\<open>None\<close>); \<^verbatim>\<open>hbuf\<close> is a host vector, resized and so zero-filled.
\<close>

record 'a stencil =
  queue :: "command_queue list"
  squeue :: "command_queue option list"
  hbuf :: "'a list"
  dbuf :: "'a option list list"
  s :: "'a list list"
  lhalo :: int
  rhalo :: int
  fast_kernel :: "bool list"
  wgs :: "nat list"

definition init ::
  "cl_runtime \<Rightarrow> real_type \<Rightarrow> statics \<Rightarrow> command_queue list \<Rightarrow> 'a::comm_ring_1 list \<Rightarrow> nat
     \<Rightarrow> error + (statics \<times> 'a stencil)" where
  "init rt ty g qs data center =
     (if qs = [] \<or> data = [] \<or> \<not> center < length data then Inl ConfigurationError
      else
        (case init_devices rt ty (length data) g qs of
           Inl e \<Rightarrow> Inl e
         | Inr (g1, plans) \<Rightarrow>
             Inr (g1,
               \<lparr>queue = qs,
                squeue = (if int center + (int (length data) - int center - 1) > 0
                          then map Some qs else map (\<lambda>q. None) qs),
                hbuf = replicate (length qs * nat (int center + (int (length data) - int center - 1))) 0,
                dbuf = (if int center + (int (length data) - int center - 1) > 0
                        then map (\<lambda>q. replicate (nat (int center + (int (length data) - int center - 1))) None) qs
                        else map (\<lambda>q. []) qs),
                s = map (\<lambda>q. data) qs,
                lhalo = int center,
                rhalo = int (length data) - int center - 1,
                fast_kernel = map fst plans,
                wgs = map snd plans\<rparr>)))"

section \<open>The kernels of the plain filter\<close>

text \<open>
  A buffer in global memory is a list. A read outside the buffer yields no value
  (\<open>None\<close>): the value may be stored, and using it in arithmetic is an error. A write
  outside the buffer is an error. Local memory is a map from addresses to values, of
  the size the host passed, holding nothing when a work-group starts. The work-items
  of a launch are run one after the other in the order of their ids; between two
  barriers, all work-items of a group run the same stage.
\<close>

definition bindE :: "error + 'b \<Rightarrow> ('b \<Rightarrow> error + 'c) \<Rightarrow> error + 'c" where
  "bindE m f = (case m of Inl e \<Rightarrow> Inl e | Inr v \<Rightarrow> f v)"

fun run_items :: "(nat \<Rightarrow> 'b \<Rightarrow> error + 'b) \<Rightarrow> nat list \<Rightarrow> 'b \<Rightarrow> error + 'b" where
  "run_items f [] st = Inr st"
| "run_items f (i # is) st = bindE (f i st) (run_items f is)"

definition gread :: "'b list \<Rightarrow> int \<Rightarrow> 'b option" where
  "gread buf i = (if 0 \<le> i \<and> i < int (length buf) then Some (buf ! nat i) else None)"

definition gwrite :: "'b list \<Rightarrow> int \<Rightarrow> 'b \<Rightarrow> error + 'b list" where
  "gwrite buf i v = (if 0 \<le> i \<and> i < int (length buf) then Inr (buf[nat i := v]) else Inl OutOfBounds)"

definition hread :: "'b option list \<Rightarrow> int \<Rightarrow> 'b option" where
  "hread h i = (case gread h i of None \<Rightarrow> None | Some v \<Rightarrow> v)"

definition lread :: "nat \<Rightarrow> (int \<Rightarrow> 'b option) \<Rightarrow> int \<Rightarrow> 'b option" where
  "lread lsize loc a = (if 0 \<le> a \<and> a < int lsize then loc a else None)"

definition lwrite :: "nat \<Rightarrow> (int \<Rightarrow> 'b option) \<Rightarrow> int \<Rightarrow> 'b option \<Rightarrow> error + (int \<Rightarrow> 'b option)" where
  "lwrite lsize loc a v = (if 0 \<le> a \<and> a < int lsize then Inr (loc(a := v)) else Inl OutOfBounds)"

text \<open>\<^verbatim>\<open>sum += a * b\<close>, where either factor may be a value that was never written.\<close>

fun madd :: "'a::comm_ring_1 option \<Rightarrow> 'a option \<Rightarrow> 'a option \<Rightarrow> 'a option" where
  "madd (Some acc) (Some a) (Some b) = Some (acc + a * b)"
| "madd _ _ _ = None"

text \<open>
  \<^verbatim>\<open>if (alpha) y[i] = alpha * y[i] + beta * sum; else y[i] = beta * sum;\<close> and
  \<^verbatim>\<open>y[i] += beta * sum;\<close>
\<close>

definition blend_store :: "'a::comm_ring_1 list \<Rightarrow> int \<Rightarrow> 'a \<Rightarrow> 'a \<Rightarrow> 'a option \<Rightarrow> error + 'a list" where
  "blend_store y i alpha beta acc =
     (case acc of
        None \<Rightarrow> Inl Uninitialized
      | Some v \<Rightarrow>
          if alpha \<noteq> 0
          then (case gread y i of None \<Rightarrow> Inl OutOfBounds | Some yv \<Rightarrow> gwrite y i (alpha * yv + beta * v))
          else gwrite y i (beta * v))"

definition add_store :: "'a::comm_ring_1 list \<Rightarrow> int \<Rightarrow> 'a \<Rightarrow> 'a option \<Rightarrow> error + 'a list" where
  "add_store y i beta acc =
     (case acc of
        None \<Rightarrow> Inl Uninitialized
      | Some v \<Rightarrow> (case gread y i of None \<Rightarrow> Inl OutOfBounds | Some yv \<Rightarrow> gwrite y i (yv + beta * v)))"

subsection \<open>\<^verbatim>\<open>conv_local_big\<close>: the fallback interior kernel\<close>

text \<open>
  The kernel arguments \<^verbatim>\<open>lhalo\<close>, \<^verbatim>\<open>rhalo\<close> and \<^verbatim>\<open>s\<close> are written \<open>lh\<close>, \<open>rh\<close>
  and \<open>sw\<close> throughout, the members of the filter object keeping the names.
  \<^verbatim>\<open>s += lhalo\<close> makes \<^verbatim>\<open>s[k]\<close> the weight at \<open>lh + k\<close>.
\<close>

definition conv_local_big_sum :: "nat \<Rightarrow> int \<Rightarrow> int \<Rightarrow> 'a::comm_ring_1 list \<Rightarrow> 'a list \<Rightarrow> int \<Rightarrow> 'a option" where
  "conv_local_big_sum n lh rh x sw g_id =
     fold (\<lambda>k sum. if g_id + k \<ge> 0 \<and> g_id + k < int n
                    then madd sum (gread sw (lh + k)) (gread x (g_id + k)) else sum)
          [- lh..rh] (Some 0)"

definition conv_local_big_item ::
  "nat \<Rightarrow> int \<Rightarrow> int \<Rightarrow> 'a::comm_ring_1 list \<Rightarrow> 'a list \<Rightarrow> 'a \<Rightarrow> 'a \<Rightarrow> nat \<Rightarrow> 'a list \<Rightarrow> error + 'a list" where
  "conv_local_big_item n lh rh x sw alpha beta g_id y =
     (if g_id < n
      then blend_store y (int g_id) alpha beta (conv_local_big_sum n lh rh x sw (int g_id))
      else Inr y)"

definition launch_conv_local_big ::
  "nat \<Rightarrow> int \<Rightarrow> int \<Rightarrow> 'a::comm_ring_1 list \<Rightarrow> 'a list \<Rightarrow> 'a \<Rightarrow> 'a \<Rightarrow> nat \<Rightarrow> 'a list \<Rightarrow> error + 'a list" where
  "launch_conv_local_big n lh rh x sw alpha beta g_size y =
     run_items (conv_local_big_item n lh rh x sw alpha beta) [0..<g_size] y"

subsection \<open>\<^verbatim>\<open>conv_local\<close>: the fast interior kernel\<close>

text \<open>
  \<^verbatim>\<open>stencil = loc_buf\<close> and \<^verbatim>\<open>xbuf = loc_buf + lhalo + rhalo + 1 + lhalo\<close>. Before the
  barrier every work-item of the group copies its share of the weights and of the
  input to local memory.
\<close>

definition conv_local_load ::
  "nat \<Rightarrow> int \<Rightarrow> int \<Rightarrow> 'a list \<Rightarrow> 'a list \<Rightarrow> nat \<Rightarrow> nat \<Rightarrow> nat \<Rightarrow> nat
     \<Rightarrow> (int \<Rightarrow> 'a option) \<Rightarrow> error + (int \<Rightarrow> 'a option)" where
  "conv_local_load n lh rh x sw block_size lsize grp l_id loc =
     bindE (if int l_id < lh + rh + 1 then lwrite lsize loc (int l_id) (gread sw (int l_id)) else Inr loc)
       (\<lambda>loc1.
          if grp * block_size + l_id < n
          then
            bindE (lwrite lsize loc1 (lh + rh + 1 + lh + int l_id) (gread x (int (grp * block_size + l_id))))
              (\<lambda>loc2.
                 bindE (if int l_id < lh \<and> int (grp * block_size + l_id) \<ge> lh
                        then lwrite lsize loc2 (lh + rh + 1 + lh + (int l_id - lh))
                               (gread x (int (grp * block_size + l_id) - lh))
                        else Inr loc2)
                   (\<lambda>loc3.
                      if int l_id + rh < int block_size \<or> int (grp * block_size + l_id) + rh < int n
                      then lwrite lsize loc3 (lh + rh + 1 + lh + (int l_id + rh))
                             (gread x (int (grp * block_size + l_id) + rh))
                      else Inr loc3))
          else Inr loc1)"

text \<open>After the barrier, \<^verbatim>\<open>stencil += lhalo\<close> makes \<^verbatim>\<open>stencil[k]\<close> the address \<open>lh + k\<close>.\<close>

definition conv_local_sum ::
  "nat \<Rightarrow> int \<Rightarrow> int \<Rightarrow> nat \<Rightarrow> (int \<Rightarrow> 'a::comm_ring_1 option) \<Rightarrow> int \<Rightarrow> int \<Rightarrow> 'a option" where
  "conv_local_sum n lh rh lsize loc g_id l_id =
     fold (\<lambda>k sum. if g_id + k \<ge> 0 \<and> g_id + k < int n
                    then madd sum (lread lsize loc (lh + k)) (lread lsize loc (lh + rh + 1 + lh + (l_id + k)))
                    else sum)
          [- lh..rh] (Some 0)"

definition conv_local_compute ::
  "nat \<Rightarrow> int \<Rightarrow> int \<Rightarrow> 'a::comm_ring_1 \<Rightarrow> 'a \<Rightarrow> nat \<Rightarrow> nat \<Rightarrow> (int \<Rightarrow> 'a option) \<Rightarrow> nat \<Rightarrow> nat
     \<Rightarrow> 'a list \<Rightarrow> error + 'a list" where
  "conv_local_compute n lh rh alpha beta block_size lsize loc grp l_id y =
     (if grp * block_size + l_id < n
      then blend_store y (int (grp * block_size + l_id)) alpha beta
             (conv_local_sum n lh rh lsize loc (int (grp * block_size + l_id)) (int l_id))
      else Inr y)"

definition conv_local_group ::
  "nat \<Rightarrow> int \<Rightarrow> int \<Rightarrow> 'a::comm_ring_1 list \<Rightarrow> 'a list \<Rightarrow> 'a \<Rightarrow> 'a \<Rightarrow> nat \<Rightarrow> nat \<Rightarrow> nat
     \<Rightarrow> 'a list \<Rightarrow> error + 'a list" where
  "conv_local_group n lh rh x sw alpha beta block_size lsize grp y =
     bindE (run_items (conv_local_load n lh rh x sw block_size lsize grp) [0..<block_size] (\<lambda>a. None))
       (\<lambda>loc. run_items (conv_local_compute n lh rh alpha beta block_size lsize loc grp) [0..<block_size] y)"

definition launch_conv_local ::
  "nat \<Rightarrow> int \<Rightarrow> int \<Rightarrow> 'a::comm_ring_1 list \<Rightarrow> 'a list \<Rightarrow> 'a \<Rightarrow> 'a \<Rightarrow> nat \<Rightarrow> nat \<Rightarrow> nat
     \<Rightarrow> 'a list \<Rightarrow> error + 'a list" where
  "launch_conv_local n lh rh x sw alpha beta g_size block_size lsize y =
     run_items (conv_local_group n lh rh x sw alpha beta block_size lsize) [0..<g_size div block_size] y"

subsection \<open>\<^verbatim>\<open>conv_remote\<close>: the boundary kernel\<close>

text \<open>
  \<^verbatim>\<open>xl = h + lhalo\<close> and \<^verbatim>\<open>xr = h + lhalo\<close>: the taps left of the partition are read
  from the first \<open>lh\<close> elements of the halo buffer \<open>h\<close>, the taps right of it from the
  elements after them; without a neighbour the first or last owned element stands in.
\<close>

definition conv_remote_left ::
  "bool \<Rightarrow> int \<Rightarrow> 'a::comm_ring_1 list \<Rightarrow> 'a option list \<Rightarrow> 'a list \<Rightarrow> int \<Rightarrow> 'a option" where
  "conv_remote_left has_left lh x h sw g_id =
     fold (\<lambda>k sum. if g_id + k < 0
                    then madd sum (gread sw (lh + k)) (if has_left then hread h (lh + (g_id + k)) else gread x 0)
                    else sum)
          [- lh..- 1] (Some 0)"

definition conv_remote_right ::
  "nat \<Rightarrow> bool \<Rightarrow> int \<Rightarrow> int \<Rightarrow> 'a::comm_ring_1 list \<Rightarrow> 'a option list \<Rightarrow> 'a list \<Rightarrow> int \<Rightarrow> 'a option" where
  "conv_remote_right n has_right lh rh x h sw g_id =
     fold (\<lambda>k sum. if g_id + k - rh \<ge> 0
                    then madd sum (gread sw (lh + k))
                           (if has_right then hread h (lh + (g_id + k - rh)) else gread x (int n - 1))
                    else sum)
          [1..rh] (Some 0)"

text \<open>
  The kernel has no barrier, and its work-items run at the same time. A work-item
  does \<^verbatim>\<open>y[g_id] += beta * sum\<close> at the left edge and
  \<^verbatim>\<open>y[n - rhalo + g_id] += beta * sum\<close> at the right edge; the other buffers are only
  read. When two different work-items update the same element of \<^verbatim>\<open>y\<close>, what it holds
  afterwards depends on how their reads and writes interleave: the launch has a data
  race. The work-items are run in the order of their ids over the output together with
  a map that gives, for every element updated so far, the work-item that updated it,
  and an update of an element that another work-item has updated is the error
  \<open>DataRace\<close>.
\<close>

definition add_store_by ::
  "nat \<Rightarrow> 'a::comm_ring_1 list \<times> (int \<rightharpoonup> nat) \<Rightarrow> int \<Rightarrow> 'a \<Rightarrow> 'a option
     \<Rightarrow> error + ('a list \<times> (int \<rightharpoonup> nat))" where
  "add_store_by g_id yo i beta acc =
     (case snd yo i of
        None \<Rightarrow> bindE (add_store (fst yo) i beta acc) (\<lambda>y1. Inr (y1, (snd yo)(i \<mapsto> g_id)))
      | Some g \<Rightarrow>
          if g = g_id then bindE (add_store (fst yo) i beta acc) (\<lambda>y1. Inr (y1, (snd yo)(i \<mapsto> g_id)))
          else Inl DataRace)"

definition conv_remote_item ::
  "nat \<Rightarrow> bool \<Rightarrow> bool \<Rightarrow> int \<Rightarrow> int \<Rightarrow> 'a::comm_ring_1 list \<Rightarrow> 'a option list \<Rightarrow> 'a list \<Rightarrow> 'a \<Rightarrow> nat
     \<Rightarrow> 'a list \<times> (int \<rightharpoonup> nat) \<Rightarrow> error + ('a list \<times> (int \<rightharpoonup> nat))" where
  "conv_remote_item n has_left has_right lh rh x h sw beta g_id yo =
     bindE (if int g_id < lh
            then add_store_by g_id yo (int g_id) beta (conv_remote_left has_left lh x h sw (int g_id))
            else Inr yo)
       (\<lambda>yo1. if int g_id < rh
               then add_store_by g_id yo1 (int n - rh + int g_id) beta
                      (conv_remote_right n has_right lh rh x h sw (int g_id))
               else Inr yo1)"

definition launch_conv_remote ::
  "nat \<Rightarrow> bool \<Rightarrow> bool \<Rightarrow> int \<Rightarrow> int \<Rightarrow> 'a::comm_ring_1 list \<Rightarrow> 'a option list \<Rightarrow> 'a list \<Rightarrow> 'a \<Rightarrow> nat
     \<Rightarrow> 'a list \<Rightarrow> error + 'a list" where
  "launch_conv_remote n has_left has_right lh rh x h sw beta g_size y =
     bindE (run_items (conv_remote_item n has_left has_right lh rh x h sw beta) [0..<g_size] (y, Map.empty))
       (\<lambda>yo. Inr (fst yo))"

section \<open>\<^verbatim>\<open>stencil<T>::convolve\<close>\<close>

text \<open>
  A \<^verbatim>\<open>vex::vector\<close> is the list of its partitions, \<^verbatim>\<open>x(d)\<close> being \<open>x ! d\<close> and
  \<^verbatim>\<open>x.part_size(d)\<close> its length; the input and the output are different vectors over
  the queue list of the filter. \<^verbatim>\<open>enqueueReadBuffer\<close> and
  \<^verbatim>\<open>enqueueWriteBuffer\<close> fail for a region outside the device buffer. Copies are
  complete when the code waits for them or the queue reaches the kernel that follows.
\<close>

definition enqueueReadBuffer :: "'b list \<Rightarrow> int \<Rightarrow> int \<Rightarrow> error + 'b list" where
  "enqueueReadBuffer buf offset cnt =
     (if 0 \<le> offset \<and> 0 \<le> cnt \<and> offset + cnt \<le> int (length buf)
      then Inr (take (nat cnt) (drop (nat offset) buf)) else Inl DeviceError)"

definition enqueueWriteBuffer :: "'b list \<Rightarrow> int \<Rightarrow> 'b list \<Rightarrow> error + 'b list" where
  "enqueueWriteBuffer buf offset vals =
     (if 0 \<le> offset \<and> offset + int (length vals) \<le> int (length buf)
      then Inr (take (nat offset) buf @ vals @ drop (nat offset + length vals) buf) else Inl DeviceError)"

text \<open>Host memory: the region of \<^verbatim>\<open>hbuf\<close> starting at an element.\<close>

definition host_store :: "'b list \<Rightarrow> int \<Rightarrow> 'b list \<Rightarrow> error + 'b list" where
  "host_store hb pos vals =
     (if 0 \<le> pos \<and> pos + int (length vals) \<le> int (length hb)
      then Inr (take (nat pos) hb @ vals @ drop (nat pos + length vals) hb) else Inl OutOfBounds)"

definition host_load :: "'b list \<Rightarrow> int \<Rightarrow> int \<Rightarrow> error + 'b list" where
  "host_load hb pos cnt =
     (if 0 \<le> pos \<and> 0 \<le> cnt \<and> pos + cnt \<le> int (length hb)
      then Inr (take (nat cnt) (drop (nat pos) hb)) else Inl OutOfBounds)"

text \<open>The body of the loop that starts reading the halos, for device \<open>d\<close> of \<open>nq\<close>.\<close>

definition read_halos :: "nat \<Rightarrow> int \<Rightarrow> int \<Rightarrow> 'b list list \<Rightarrow> nat \<Rightarrow> 'b list \<Rightarrow> error + 'b list" where
  "read_halos nq lh rh x d hb =
     bindE (if d > 0 \<and> rh > 0
            then bindE (enqueueReadBuffer (x ! d) 0 rh) (host_store hb (int d * (rh + lh)))
            else Inr hb)
       (\<lambda>hb1. if d + 1 < nq \<and> lh > 0
               then bindE (enqueueReadBuffer (x ! d) (int (length (x ! d)) - lh) lh)
                      (host_store hb1 (int d * (rh + lh) + rh))
               else Inr hb1)"

text \<open>The two writes into the halo buffer of device \<open>d\<close>.\<close>

definition write_halos :: "nat \<Rightarrow> int \<Rightarrow> int \<Rightarrow> 'b list \<Rightarrow> nat \<Rightarrow> 'b option list \<Rightarrow> error + 'b option list" where
  "write_halos nq lh rh hb d db =
     bindE (if d > 0 \<and> lh > 0
            then bindE (host_load hb ((int d - 1) * (rh + lh) + rh) lh)
                   (\<lambda>frag. enqueueWriteBuffer db 0 (map Some frag))
            else Inr db)
       (\<lambda>db1. if d + 1 < nq \<and> rh > 0
               then bindE (host_load hb ((int d + 1) * (rh + lh)) rh)
                      (\<lambda>frag. enqueueWriteBuffer db1 lh (map Some frag))
               else Inr db1)"

text \<open>
  The interior launch on device \<open>d\<close>: the kernel the planner chose, over the aligned
  size. With a work-group size of zero \<^verbatim>\<open>alignup\<close> divides by zero, and nothing is
  launched.
\<close>

definition interior :: "'a::comm_ring_1 stencil \<Rightarrow> 'a list list \<Rightarrow> 'a \<Rightarrow> 'a \<Rightarrow> nat \<Rightarrow> 'a list list \<Rightarrow> error + 'a list list" where
  "interior st x alpha beta d y =
     bindE (if wgs st ! d = 0 then Inl DeviceError
            else if fast_kernel st ! d
            then launch_conv_local (length (x ! d)) (lhalo st) (rhalo st) (x ! d) (s st ! d) alpha beta
                   (alignup (length (x ! d)) (wgs st ! d)) (wgs st ! d)
                   (nat (int (wgs st ! d) + 2 * (lhalo st + rhalo st) + 1)) (y ! d)
            else launch_conv_local_big (length (x ! d)) (lhalo st) (rhalo st) (x ! d) (s st ! d) alpha beta
                   (alignup (length (x ! d)) (wgs st ! d)) (y ! d))
       (\<lambda>yd. Inr (y[d := yd]))"

text \<open>The halo writes and the boundary launch on device \<open>d\<close>, over \<^verbatim>\<open>max(lhalo, rhalo)\<close>.\<close>

definition boundary ::
  "'a::comm_ring_1 stencil \<Rightarrow> 'a list \<Rightarrow> 'a list list \<Rightarrow> 'a \<Rightarrow> nat
     \<Rightarrow> 'a option list list \<times> 'a list list \<Rightarrow> error + ('a option list list \<times> 'a list list)" where
  "boundary st hb x beta d dy =
     bindE (write_halos (length (queue st)) (lhalo st) (rhalo st) hb d (fst dy ! d))
       (\<lambda>db. bindE (launch_conv_remote (length (x ! d)) (d > 0) (d + 1 < length (queue st))
                       (lhalo st) (rhalo st) (x ! d) db (s st ! d) beta
                       (nat (max (lhalo st) (rhalo st))) (snd dy ! d))
                (\<lambda>yd. Inr ((fst dy)[d := db], (snd dy)[d := yd])))"

text \<open>
  The first block of \<^verbatim>\<open>convolve\<close>, which starts the reads of the halos into the
  staging buffer \<^verbatim>\<open>hbuf\<close>, and \<^verbatim>\<open>convolve\<close>.
\<close>

definition halo_reads :: "'a stencil \<Rightarrow> 'a list list \<Rightarrow> error + 'a list" where
  "halo_reads st x =
     (if length (queue st) > 1 \<and> lhalo st + rhalo st > 0
      then run_items (read_halos (length (queue st)) (lhalo st) (rhalo st) x)
             [0..<length (queue st)] (hbuf st)
      else Inr (hbuf st))"

definition convolve ::
  "'a::comm_ring_1 stencil \<Rightarrow> 'a list list \<Rightarrow> 'a list list \<Rightarrow> 'a \<Rightarrow> 'a \<Rightarrow> error + ('a stencil \<times> 'a list list)" where
  "convolve st x y alpha beta =
     bindE (halo_reads st x)
       (\<lambda>hb. bindE (run_items (interior st x alpha beta) [0..<length (queue st)] y)
                (\<lambda>y1. if lhalo st + rhalo st > 0
                       then bindE (run_items (boundary st hb x beta) [0..<length (queue st)] (dbuf st, y1))
                              (\<lambda>dy. Inr (st\<lparr>hbuf := hb, dbuf := fst dy\<rparr>, snd dy))
                       else Inr (st\<lparr>hbuf := hb\<rparr>, y1)))"

section \<open>The generalized filter (\<^verbatim>\<open>gstencil<T>\<close>)\<close>

record 'a gstencil =
  g_queue :: "command_queue list"
  g_squeue :: "command_queue option list"
  g_hbuf :: "'a list"
  g_dbuf :: "'a option list list"
  g_S :: "'a list list"
  g_lhalo :: int
  g_rhalo :: int
  rows :: nat
  cols :: nat

text \<open>\<^verbatim>\<open>gstencil<T>::init\<close>. The members \<^verbatim>\<open>rows\<close> and \<^verbatim>\<open>cols\<close> are set by the constructor.\<close>

definition ginit ::
  "command_queue list \<Rightarrow> nat \<Rightarrow> nat \<Rightarrow> nat \<Rightarrow> 'a::comm_ring_1 list \<Rightarrow> error + 'a gstencil" where
  "ginit qs nrows ncols center data =
     (if \<not> (nrows \<noteq> 0 \<and> ncols \<noteq> 0) \<or> nrows * ncols \<noteq> length data \<or> \<not> center < ncols
      then Inl ConfigurationError
      else
        Inr \<lparr>g_queue = qs,
             g_squeue = (if int center + (int ncols - int center - 1) > 0 then map Some qs else map (\<lambda>q. None) qs),
             g_hbuf = replicate (length qs * nat (int center + (int ncols - int center - 1))) 0,
             g_dbuf = (if int center + (int ncols - int center - 1) > 0
                       then map (\<lambda>q. replicate (nat (int center + (int ncols - int center - 1))) None) qs
                       else map (\<lambda>q. []) qs),
             g_S = map (\<lambda>q. data) qs,
             g_lhalo = int center,
             g_rhalo = int ncols - int center - 1,
             rows = nrows,
             cols = ncols\<rparr>)"

text \<open>
  The program text of \<^verbatim>\<open>gstencil<T>::convolve<func>\<close>; \<open>func\<close> stands for
  \<^verbatim>\<open>func::value()\<close>, the device-side name of the transform.
\<close>

definition g_conv_local_text :: "string \<Rightarrow> string \<Rightarrow> string" where
  "g_conv_local_text size_t func =
     ''kernel void conv_local('' @ nl @
     ''    '' @ size_t @ '' n,'' @ nl @
     ''    uint rows, uint cols,'' @ nl @
     ''    int lhalo, int rhalo,'' @ nl @
     ''    global const real *x,'' @ nl @
     ''    global const real *s,'' @ nl @
     ''    global real *y,'' @ nl @
     ''    real alpha, real beta,'' @ nl @
     ''    local real *loc_buf'' @ nl @
     ''    )'' @ nl @
     ''{'' @ nl @
     ''    local real *S = loc_buf;'' @ nl @
     ''    local real *xbuf = loc_buf + rows * cols + lhalo;'' @ nl @
     ''    size_t block_size = get_local_size(0);'' @ nl @
     ''    long   g_id       = get_global_id(0);'' @ nl @
     ''    int    l_id       = get_local_id(0);'' @ nl @
     ''    if (l_id < rows * cols)'' @ nl @
     ''        S[l_id] = s[l_id];'' @ nl @
     ''    if (g_id < n) {'' @ nl @
     ''        xbuf[l_id] = x[g_id];'' @ nl @
     ''        if (l_id < lhalo && g_id >= lhalo)'' @ nl @
     ''            xbuf[l_id - lhalo] = x[g_id - lhalo];'' @ nl @
     ''        if (l_id + rhalo < block_size || g_id + rhalo < n)'' @ nl @
     ''            xbuf[l_id + rhalo] = x[g_id + rhalo];'' @ nl @
     ''    }'' @ nl @
     ''    barrier(CLK_LOCAL_MEM_FENCE);'' @ nl @
     ''    if (g_id >= lhalo && g_id + rhalo < n) {'' @ nl @
     ''        real srow = 0;'' @ nl @
     ''        for(int k = 0; k < rows; k++) {'' @ nl @
     ''            real scol = 0;'' @ nl @
     ''            for(int j = -lhalo; j <= rhalo; j++)'' @ nl @
     ''                scol += S[lhalo + j + k * cols] * xbuf[l_id + j];'' @ nl @
     ''            srow += '' @ func @ ''(scol);'' @ nl @
     ''        }'' @ nl @
     ''        if (alpha)'' @ nl @
     ''            y[g_id] = alpha * y[g_id] + beta * srow;'' @ nl @
     ''        else'' @ nl @
     ''            y[g_id] = beta * srow;'' @ nl @
     ''    }'' @ nl @
     ''}'' @ nl"

definition g_conv_remote_text :: "string \<Rightarrow> string \<Rightarrow> string" where
  "g_conv_remote_text size_t func =
     ''kernel void conv_remote('' @ nl @
     ''    '' @ size_t @ '' n,'' @ nl @
     ''    char has_left,'' @ nl @
     ''    char has_right,'' @ nl @
     ''    uint rows, uint cols,'' @ nl @
     ''    int lhalo, int rhalo,'' @ nl @
     ''    global const real *xloc,'' @ nl @
     ''    global const real *xrem,'' @ nl @
     ''    global const real *s,'' @ nl @
     ''    global real *y,'' @ nl @
     ''    real alpha, real beta,'' @ nl @
     ''    local real *xbuf'' @ nl @
     ''    )'' @ nl @
     ''{'' @ nl @
     ''    long g_id = get_global_id(0);'' @ nl @
     ''    xbuf += lhalo;'' @ nl @
     ''    xrem += lhalo;'' @ nl @
     ''    if (g_id < lhalo) {'' @ nl @
     ''        xbuf[g_id] = xloc[g_id];'' @ nl @
     ''        xbuf[g_id + rhalo] = xloc[g_id + rhalo];'' @ nl @
     ''        xbuf[g_id - lhalo] = has_left ? xrem[g_id - lhalo] : xloc[0];'' @ nl @
     ''    }'' @ nl @
     ''    barrier(CLK_LOCAL_MEM_FENCE);'' @ nl @
     ''    if (g_id < lhalo) {'' @ nl @
     ''        real srow = 0;'' @ nl @
     ''        for(int k = 0; k < rows; k++) {'' @ nl @
     ''            real scol = 0;'' @ nl @
     ''            for(int j = -lhalo; j <= rhalo; j++)'' @ nl @
     ''                scol += s[lhalo + j + k * cols] * xbuf[g_id + j];'' @ nl @
     ''            srow += '' @ func @ ''(scol);'' @ nl @
     ''        }'' @ nl @
     ''        if (alpha)'' @ nl @
     ''            y[g_id] = alpha * y[g_id] + beta * srow;'' @ nl @
     ''        else'' @ nl @
     ''            y[g_id] = beta * srow;'' @ nl @
     ''    }'' @ nl @
     ''    barrier(CLK_LOCAL_MEM_FENCE);'' @ nl @
     ''    if (g_id < rhalo) {'' @ nl @
     ''        xbuf[g_id] = xloc[n - rhalo + g_id];'' @ nl @
     ''        xbuf[g_id - lhalo] = xloc[n - rhalo + g_id - lhalo];'' @ nl @
     ''        xbuf[g_id + rhalo] = has_right ? xrem[g_id] : xloc[n - 1];'' @ nl @
     ''    }'' @ nl @
     ''    barrier(CLK_LOCAL_MEM_FENCE);'' @ nl @
     ''    if (g_id < rhalo) {'' @ nl @
     ''        real srow = 0;'' @ nl @
     ''        for(int k = 0; k < rows; k++) {'' @ nl @
     ''            real scol = 0;'' @ nl @
     ''            for(int j = -lhalo; j <= rhalo; j++)'' @ nl @
     ''                scol += s[lhalo + j + k * cols] * xbuf[g_id + j];'' @ nl @
     ''            srow += sin(scol);'' @ nl @
     ''        }'' @ nl @
     ''        if (alpha)'' @ nl @
     ''            y[n - rhalo + g_id] = alpha * y[n - rhalo + g_id] + beta * srow;'' @ nl @
     ''        else'' @ nl @
     ''            y[n - rhalo + g_id] = beta * srow;'' @ nl @
     ''    }'' @ nl @
     ''}'' @ nl"

definition gstencil_source :: "real_type \<Rightarrow> string \<Rightarrow> string" where
  "gstencil_source ty func =
     ''1'' @ ''typedef '' @ type_name ty @ '' real;'' @ nl @
     g_conv_local_text (size_t_name ty) func @
     g_conv_remote_text (size_t_name ty) func"

definition gcompile :: "cl_runtime \<Rightarrow> real_type \<Rightarrow> string \<Rightarrow> statics \<Rightarrow> command_queue \<Rightarrow> error + statics" where
  "gcompile rt ty func g q =
     (if g_compiled g ty func (queue_context q) then Inr g
      else
        (case build_sources rt g (queue_context q) (gstencil_source ty func) [] of
           Inl e \<Rightarrow> Inl e
         | Inr (program, g1) \<Rightarrow>
             Inr (g1\<lparr>
               g_conv_local := (g_conv_local g1)
                 (ty := (g_conv_local g1 ty)
                    (func := (g_conv_local g1 ty func)(queue_context q \<mapsto> (program, ''conv_local'')))),
               g_conv_remote := (g_conv_remote g1)
                 (ty := (g_conv_remote g1 ty)
                    (func := (g_conv_remote g1 ty func)(queue_context q \<mapsto> (program, ''conv_remote'')))),
               g_wgsize := (g_wgsize g1)
                 (ty := (g_wgsize g1 ty)
                    (func := (g_wgsize g1 ty func)(queue_context q :=
                       min (kernel_workgroup_size rt (program, ''conv_local'') (queue_device q))
                           (kernel_workgroup_size rt (program, ''conv_remote'') (queue_device q))))),
               g_compiled := (g_compiled g1)
                 (ty := (g_compiled g1 ty)
                    (func := (g_compiled g1 ty func)(queue_context q := True))),
               g_compilations := (g_compilations g1)
                 (ty := (g_compilations g1 ty)
                    (func := (g_compilations g1 ty func)
                       (queue_context q := Suc (g_compilations g1 ty func (queue_context q)))))\<rparr>)))"

fun gcompile_all :: "cl_runtime \<Rightarrow> real_type \<Rightarrow> string \<Rightarrow> statics \<Rightarrow> command_queue list \<Rightarrow> error + statics" where
  "gcompile_all rt ty func g [] = Inr g"
| "gcompile_all rt ty func g (q # qs) = bindE (gcompile rt ty func g q) (\<lambda>g1. gcompile_all rt ty func g1 qs)"

subsection \<open>The kernels of the generalized filter\<close>

text \<open>
  \<open>builtin\<close> gives the function the device computes for a built-in name. The inner
  loop sums one row of the matrix against the window, the outer loop adds the
  transformed row sums: \<open>wt\<close> reads a weight, \<open>xb j\<close> reads \<^verbatim>\<open>xbuf[id + j]\<close>.
\<close>

definition g_scol :: "(int \<Rightarrow> 'a::comm_ring_1 option) \<Rightarrow> (int \<Rightarrow> 'a option) \<Rightarrow> int \<Rightarrow> int \<Rightarrow> nat \<Rightarrow> nat \<Rightarrow> 'a option" where
  "g_scol wt xb lh rh ncols k =
     fold (\<lambda>j scol. madd scol (wt (lh + j + int (k * ncols))) (xb j)) [- lh..rh] (Some 0)"

definition g_srow ::
  "('a::comm_ring_1 \<Rightarrow> 'a) \<Rightarrow> (int \<Rightarrow> 'a option) \<Rightarrow> (int \<Rightarrow> 'a option) \<Rightarrow> int \<Rightarrow> int \<Rightarrow> nat \<Rightarrow> nat \<Rightarrow> 'a option" where
  "g_srow f wt xb lh rh nrows ncols =
     fold (\<lambda>k srow. case srow of None \<Rightarrow> None
                     | Some a \<Rightarrow> (case g_scol wt xb lh rh ncols k of None \<Rightarrow> None | Some b \<Rightarrow> Some (a + f b)))
          [0..<nrows] (Some 0)"

text \<open>\<^verbatim>\<open>conv_local\<close>: \<^verbatim>\<open>S = loc_buf\<close>, \<^verbatim>\<open>xbuf = loc_buf + rows * cols + lhalo\<close>.\<close>

definition g_conv_local_load ::
  "nat \<Rightarrow> nat \<Rightarrow> nat \<Rightarrow> int \<Rightarrow> int \<Rightarrow> 'a list \<Rightarrow> 'a list \<Rightarrow> nat \<Rightarrow> nat \<Rightarrow> nat \<Rightarrow> nat
     \<Rightarrow> (int \<Rightarrow> 'a option) \<Rightarrow> error + (int \<Rightarrow> 'a option)" where
  "g_conv_local_load n nrows ncols lh rh x sw block_size lsize grp l_id loc =
     bindE (if l_id < nrows * ncols then lwrite lsize loc (int l_id) (gread sw (int l_id)) else Inr loc)
       (\<lambda>loc1.
          if grp * block_size + l_id < n
          then
            bindE (lwrite lsize loc1 (int (nrows * ncols) + lh + int l_id) (gread x (int (grp * block_size + l_id))))
              (\<lambda>loc2.
                 bindE (if int l_id < lh \<and> int (grp * block_size + l_id) \<ge> lh
                        then lwrite lsize loc2 (int (nrows * ncols) + lh + (int l_id - lh))
                               (gread x (int (grp * block_size + l_id) - lh))
                        else Inr loc2)
                   (\<lambda>loc3.
                      if int l_id + rh < int block_size \<or> int (grp * block_size + l_id) + rh < int n
                      then lwrite lsize loc3 (int (nrows * ncols) + lh + (int l_id + rh))
                             (gread x (int (grp * block_size + l_id) + rh))
                      else Inr loc3))
          else Inr loc1)"

definition g_conv_local_compute ::
  "('a::comm_ring_1 \<Rightarrow> 'a) \<Rightarrow> nat \<Rightarrow> nat \<Rightarrow> nat \<Rightarrow> int \<Rightarrow> int \<Rightarrow> 'a \<Rightarrow> 'a \<Rightarrow> nat \<Rightarrow> nat
     \<Rightarrow> (int \<Rightarrow> 'a option) \<Rightarrow> nat \<Rightarrow> nat \<Rightarrow> 'a list \<Rightarrow> error + 'a list" where
  "g_conv_local_compute f n nrows ncols lh rh alpha beta block_size lsize loc grp l_id y =
     (if int (grp * block_size + l_id) \<ge> lh \<and> int (grp * block_size + l_id) + rh < int n
      then blend_store y (int (grp * block_size + l_id)) alpha beta
             (g_srow f (lread lsize loc) (\<lambda>j. lread lsize loc (int (nrows * ncols) + lh + (int l_id + j)))
                lh rh nrows ncols)
      else Inr y)"

definition g_conv_local_group ::
  "('a::comm_ring_1 \<Rightarrow> 'a) \<Rightarrow> nat \<Rightarrow> nat \<Rightarrow> nat \<Rightarrow> int \<Rightarrow> int \<Rightarrow> 'a list \<Rightarrow> 'a list \<Rightarrow> 'a \<Rightarrow> 'a \<Rightarrow> nat \<Rightarrow> nat
     \<Rightarrow> nat \<Rightarrow> 'a list \<Rightarrow> error + 'a list" where
  "g_conv_local_group f n nrows ncols lh rh x sw alpha beta block_size lsize grp y =
     bindE (run_items (g_conv_local_load n nrows ncols lh rh x sw block_size lsize grp) [0..<block_size] (\<lambda>a. None))
       (\<lambda>loc. run_items (g_conv_local_compute f n nrows ncols lh rh alpha beta block_size lsize loc grp)
                 [0..<block_size] y)"

definition launch_g_conv_local ::
  "('a::comm_ring_1 \<Rightarrow> 'a) \<Rightarrow> nat \<Rightarrow> nat \<Rightarrow> nat \<Rightarrow> int \<Rightarrow> int \<Rightarrow> 'a list \<Rightarrow> 'a list \<Rightarrow> 'a \<Rightarrow> 'a \<Rightarrow> nat \<Rightarrow> nat
     \<Rightarrow> nat \<Rightarrow> 'a list \<Rightarrow> error + 'a list" where
  "launch_g_conv_local f n nrows ncols lh rh x sw alpha beta g_size block_size lsize y =
     run_items (g_conv_local_group f n nrows ncols lh rh x sw alpha beta block_size lsize)
       [0..<g_size div block_size] y"

text \<open>
  \<^verbatim>\<open>conv_remote\<close>: \<^verbatim>\<open>xbuf += lhalo\<close> and \<^verbatim>\<open>xrem += lhalo\<close>. The launch names no
  work-group size; its work-items are taken to form one group. The four stages are
  separated by barriers: stage the left edge, compute it, stage the right edge,
  compute it. The last stage calls \<^verbatim>\<open>sin\<close>, whatever \<open>func\<close> is.
\<close>

definition g_remote_stage_left ::
  "bool \<Rightarrow> int \<Rightarrow> int \<Rightarrow> 'a list \<Rightarrow> 'a option list \<Rightarrow> nat \<Rightarrow> nat \<Rightarrow> (int \<Rightarrow> 'a option)
     \<Rightarrow> error + (int \<Rightarrow> 'a option)" where
  "g_remote_stage_left has_left lh rh xloc xrem lsize g_id loc =
     (if int g_id < lh
      then
        bindE (lwrite lsize loc (lh + int g_id) (gread xloc (int g_id)))
          (\<lambda>loc1. bindE (lwrite lsize loc1 (lh + (int g_id + rh)) (gread xloc (int g_id + rh)))
             (\<lambda>loc2. lwrite lsize loc2 (lh + (int g_id - lh))
                        (if has_left then hread xrem (lh + (int g_id - lh)) else gread xloc 0)))
      else Inr loc)"

definition g_remote_compute_left ::
  "('a::comm_ring_1 \<Rightarrow> 'a) \<Rightarrow> nat \<Rightarrow> nat \<Rightarrow> int \<Rightarrow> int \<Rightarrow> 'a list \<Rightarrow> 'a \<Rightarrow> 'a \<Rightarrow> nat \<Rightarrow> (int \<Rightarrow> 'a option)
     \<Rightarrow> nat \<Rightarrow> 'a list \<Rightarrow> error + 'a list" where
  "g_remote_compute_left f nrows ncols lh rh sw alpha beta lsize loc g_id y =
     (if int g_id < lh
      then blend_store y (int g_id) alpha beta
             (g_srow f (gread sw) (\<lambda>j. lread lsize loc (lh + (int g_id + j))) lh rh nrows ncols)
      else Inr y)"

definition g_remote_stage_right ::
  "nat \<Rightarrow> bool \<Rightarrow> int \<Rightarrow> int \<Rightarrow> 'a list \<Rightarrow> 'a option list \<Rightarrow> nat \<Rightarrow> nat \<Rightarrow> (int \<Rightarrow> 'a option)
     \<Rightarrow> error + (int \<Rightarrow> 'a option)" where
  "g_remote_stage_right n has_right lh rh xloc xrem lsize g_id loc =
     (if int g_id < rh
      then
        bindE (lwrite lsize loc (lh + int g_id) (gread xloc (int n - rh + int g_id)))
          (\<lambda>loc1. bindE (lwrite lsize loc1 (lh + (int g_id - lh)) (gread xloc (int n - rh + int g_id - lh)))
             (\<lambda>loc2. lwrite lsize loc2 (lh + (int g_id + rh))
                        (if has_right then hread xrem (lh + int g_id) else gread xloc (int n - 1))))
      else Inr loc)"

definition g_remote_compute_right ::
  "(string \<Rightarrow> 'a::comm_ring_1 \<Rightarrow> 'a) \<Rightarrow> nat \<Rightarrow> nat \<Rightarrow> nat \<Rightarrow> int \<Rightarrow> int \<Rightarrow> 'a list \<Rightarrow> 'a \<Rightarrow> 'a \<Rightarrow> nat
     \<Rightarrow> (int \<Rightarrow> 'a option) \<Rightarrow> nat \<Rightarrow> 'a list \<Rightarrow> error + 'a list" where
  "g_remote_compute_right builtin n nrows ncols lh rh sw alpha beta lsize loc g_id y =
     (if int g_id < rh
      then blend_store y (int n - rh + int g_id) alpha beta
             (g_srow (builtin ''sin'') (gread sw) (\<lambda>j. lread lsize loc (lh + (int g_id + j))) lh rh nrows ncols)
      else Inr y)"

definition launch_g_conv_remote ::
  "(string \<Rightarrow> 'a::comm_ring_1 \<Rightarrow> 'a) \<Rightarrow> string \<Rightarrow> nat \<Rightarrow> bool \<Rightarrow> bool \<Rightarrow> nat \<Rightarrow> nat \<Rightarrow> int \<Rightarrow> int
     \<Rightarrow> 'a list \<Rightarrow> 'a option list \<Rightarrow> 'a list \<Rightarrow> 'a \<Rightarrow> 'a \<Rightarrow> nat \<Rightarrow> nat \<Rightarrow> 'a list \<Rightarrow> error + 'a list" where
  "launch_g_conv_remote builtin func n has_left has_right nrows ncols lh rh xloc xrem sw alpha beta g_size lsize y =
     bindE (run_items (g_remote_stage_left has_left lh rh xloc xrem lsize) [0..<g_size] (\<lambda>a. None))
       (\<lambda>loc1. bindE (run_items (g_remote_compute_left (builtin func) nrows ncols lh rh sw alpha beta lsize loc1)
                         [0..<g_size] y)
          (\<lambda>y1. bindE (run_items (g_remote_stage_right n has_right lh rh xloc xrem lsize) [0..<g_size] loc1)
             (\<lambda>loc2. run_items (g_remote_compute_right builtin n nrows ncols lh rh sw alpha beta lsize loc2)
                        [0..<g_size] y1)))"

subsection \<open>\<^verbatim>\<open>gstencil<T>::convolve<func>\<close>\<close>

text \<open>
  The interior launch on device \<open>d\<close>, with the assertion on the local memory it needs
  (\<^verbatim>\<open>sizeof(T) * (wgsize + lhalo + rhalo + rows * cols)\<close> bytes). As for the plain
  filter, a work-group size of zero launches nothing.
\<close>

definition g_interior ::
  "cl_runtime \<Rightarrow> real_type \<Rightarrow> (string \<Rightarrow> 'a::comm_ring_1 \<Rightarrow> 'a) \<Rightarrow> string \<Rightarrow> statics \<Rightarrow> 'a gstencil
     \<Rightarrow> 'a list list \<Rightarrow> 'a \<Rightarrow> 'a \<Rightarrow> nat \<Rightarrow> 'a list list \<Rightarrow> error + 'a list list" where
  "g_interior rt ty builtin func g st x alpha beta d y =
     (case g_conv_local g ty func (queue_context (g_queue st ! d)) of
        None \<Rightarrow> Inl DeviceError
      | Some krn \<Rightarrow>
          if g_wgsize g ty func (queue_context (g_queue st ! d)) = 0 then Inl DeviceError
          else if int (size_of ty) * (int (g_wgsize g ty func (queue_context (g_queue st ! d))) + g_lhalo st + g_rhalo st
                                  + int (rows st * cols st))
             \<le> (int (device_local_mem_size rt (queue_device (g_queue st ! d)))
                 - int (kernel_local_mem_size rt krn (queue_device (g_queue st ! d)))) mod 2 ^ 64
          then
            bindE (launch_g_conv_local (builtin func) (length (x ! d)) (rows st) (cols st) (g_lhalo st) (g_rhalo st)
                     (x ! d) (g_S st ! d) alpha beta
                     (alignup (length (x ! d)) (g_wgsize g ty func (queue_context (g_queue st ! d))))
                     (g_wgsize g ty func (queue_context (g_queue st ! d)))
                     (nat (int (g_wgsize g ty func (queue_context (g_queue st ! d))) + g_lhalo st + g_rhalo st
                           + int (rows st * cols st)))
                     (y ! d))
              (\<lambda>yd. Inr (y[d := yd]))
          else Inl ConfigurationError)"

definition g_boundary ::
  "real_type \<Rightarrow> (string \<Rightarrow> 'a::comm_ring_1 \<Rightarrow> 'a) \<Rightarrow> string \<Rightarrow> statics \<Rightarrow> 'a gstencil \<Rightarrow> 'a list
     \<Rightarrow> 'a list list \<Rightarrow> 'a \<Rightarrow> 'a
     \<Rightarrow> nat \<Rightarrow> 'a option list list \<times> 'a list list \<Rightarrow> error + ('a option list list \<times> 'a list list)" where
  "g_boundary ty builtin func g st hb x alpha beta d dy =
     bindE (write_halos (length (g_queue st)) (g_lhalo st) (g_rhalo st) hb d (fst dy ! d))
       (\<lambda>db. bindE (launch_g_conv_remote builtin func (length (x ! d)) (d > 0) (d + 1 < length (g_queue st))
                       (rows st) (cols st) (g_lhalo st) (g_rhalo st) (x ! d) db (g_S st ! d) alpha beta
                       (nat (max (g_lhalo st) (g_rhalo st)))
                       (nat (int (g_wgsize g ty func (queue_context (g_queue st ! d))) + g_lhalo st + g_rhalo st))
                       (snd dy ! d))
                (\<lambda>yd. Inr ((fst dy)[d := db], (snd dy)[d := yd])))"

definition gconvolve ::
  "cl_runtime \<Rightarrow> real_type \<Rightarrow> (string \<Rightarrow> 'a::comm_ring_1 \<Rightarrow> 'a) \<Rightarrow> string \<Rightarrow> statics \<Rightarrow> 'a gstencil
     \<Rightarrow> 'a list list \<Rightarrow> 'a list list \<Rightarrow> 'a \<Rightarrow> 'a \<Rightarrow> error + (statics \<times> 'a gstencil \<times> 'a list list)" where
  "gconvolve rt ty builtin func g st x y alpha beta =
     bindE (gcompile_all rt ty func g (g_queue st))
       (\<lambda>g1.
          bindE (if length (g_queue st) > 1 \<and> g_lhalo st + g_rhalo st > 0
                 then run_items (read_halos (length (g_queue st)) (g_lhalo st) (g_rhalo st) x)
                        [0..<length (g_queue st)] (g_hbuf st)
                 else Inr (g_hbuf st))
            (\<lambda>hb. bindE (run_items (g_interior rt ty builtin func g1 st x alpha beta) [0..<length (g_queue st)] y)
                     (\<lambda>y1. if g_lhalo st + g_rhalo st > 0
                            then bindE (run_items (g_boundary ty builtin func g1 st hb x alpha beta)
                                          [0..<length (g_queue st)] (g_dbuf st, y1))
                                   (\<lambda>dy. Inr (g1, st\<lparr>g_hbuf := hb, g_dbuf := fst dy\<rparr>, snd dy))
                            else Inr (g1, st\<lparr>g_hbuf := hb\<rparr>, y1))))"

section \<open>A process: constructions and generalized convolutions, one after the other\<close>

text \<open>
  The calls that reach a compilation site are the construction of a plain filter and
  the convolution with a generalized filter, each for an element type of its own; the
  values of all calls are taken from the one ring \<open>'a\<close>, which plays no part in what
  is compiled. A process starts with nothing compiled and empty option stacks.

  An error that the code raises (a failed assertion, a failed build, an error of the
  runtime) ends the process. Where the model stops because a kernel used a value that
  was never written, wrote outside a buffer or raced, the code completes the call with
  an output that is not defined, and the process goes on with what the call compiled.
\<close>

definition process_start :: statics where
  "process_start =
     \<lparr>compile_options = Map.empty, program_header = Map.empty,
      compiled = (\<lambda>t c. False), conv_local = (\<lambda>t. Map.empty), conv_local_big = (\<lambda>t. Map.empty),
      conv_remote = (\<lambda>t. Map.empty), wgsize = (\<lambda>t c. 0),
      g_compiled = (\<lambda>t f c. False), g_conv_local = (\<lambda>t f. Map.empty),
      g_conv_remote = (\<lambda>t f. Map.empty), g_wgsize = (\<lambda>t f c. 0),
      compilations = (\<lambda>t c. 0), g_compilations = (\<lambda>t f c. 0)\<rparr>"

fun raised :: "error \<Rightarrow> bool" where
  "raised ConfigurationError = True"
| "raised CompileError = True"
| "raised DeviceError = True"
| "raised OutOfBounds = False"
| "raised Uninitialized = False"
| "raised DataRace = False"

datatype 'a call =
    Construct real_type "command_queue list" "'a list" nat
  | GConvolve real_type string "'a gstencil" "'a list list" "'a list list" 'a 'a

fun run ::
  "cl_runtime \<Rightarrow> (string \<Rightarrow> 'a::comm_ring_1 \<Rightarrow> 'a) \<Rightarrow> statics \<Rightarrow> 'a call list \<Rightarrow> error + statics" where
  "run rt builtin g [] = Inr g"
| "run rt builtin g (Construct ty qs data center # cs) =
     (case (init rt ty g qs data center :: error + (statics \<times> 'a stencil)) of
        Inl e \<Rightarrow> Inl e
      | Inr r \<Rightarrow> run rt builtin (fst r) cs)"
| "run rt builtin g (GConvolve ty func st x y alpha beta # cs) =
     (case gconvolve rt ty builtin func g st x y alpha beta of
        Inr r \<Rightarrow> run rt builtin (fst r) cs
      | Inl e \<Rightarrow>
          if raised e then Inl e
          else (case gcompile_all rt ty func g (g_queue st) of
                  Inl e1 \<Rightarrow> Inl e1
                | Inr g1 \<Rightarrow> run rt builtin g1 cs))"

text \<open>The cache keys the calls of a process use.\<close>

fun plain_keys :: "'a call list \<Rightarrow> (real_type \<times> cl_context) set" where
  "plain_keys [] = {}"
| "plain_keys (Construct ty qs data center # cs) = (\<lambda>q. (ty, queue_context q)) ` set qs \<union> plain_keys cs"
| "plain_keys (GConvolve ty func st x y alpha beta # cs) = plain_keys cs"

fun g_keys :: "'a call list \<Rightarrow> (real_type \<times> string \<times> cl_context) set" where
  "g_keys [] = {}"
| "g_keys (Construct ty qs data center # cs) = g_keys cs"
| "g_keys (GConvolve ty func st x y alpha beta # cs) =
     (\<lambda>q. (ty, func, queue_context q)) ` set (g_queue st) \<union> g_keys cs"

text \<open>
  The two counters agree with the cache flags: a key has been compiled once when its
  flag is set, and never otherwise.
\<close>

definition counted :: "statics \<Rightarrow> bool" where
  "counted g \<longleftrightarrow>
     (\<forall>t c. compilations g t c = (if compiled g t c then 1 else 0))
   \<and> (\<forall>t f c. g_compilations g t f c = (if g_compiled g t f c then 1 else 0))"

section \<open>Example inputs\<close>

text \<open>
  A runtime whose devices have \<open>mem\<close> bytes of local memory and allow work-groups of
  \<open>lim\<close> items, every context holding the device of its own number; 32-bit integers
  as the element type; queues on context 0.
\<close>

definition example_rt :: "nat \<Rightarrow> nat \<Rightarrow> cl_runtime" where
  "example_rt mem lim =
     \<lparr>context_devices = (\<lambda>c. [c]), device_local_mem_size = (\<lambda>d. mem),
      kernel_local_mem_size = (\<lambda>k d. 0), kernel_work_group_size = (\<lambda>k d. lim),
      program_builds = (\<lambda>src opts. True)\<rparr>"

definition example_type :: real_type where
  "example_type = \<lparr>type_name = ''int'', size_of = 4, size_t_name = ''ulong''\<rparr>"

definition example_queue :: "nat \<Rightarrow> command_queue" where
  "example_queue d = \<lparr>queue_context = 0, queue_device = d\<rparr>"

definition example_gstencil :: "int gstencil" where
  "example_gstencil =
     \<lparr>g_queue = [example_queue 0], g_squeue = [None], g_hbuf = [], g_dbuf = [[]], g_S = [[2]],
      g_lhalo = 0, g_rhalo = 0, rows = 1, cols = 1\<rparr>"

definition example_calls :: "int call list" where
  "example_calls =
     [Construct example_type [example_queue 0, example_queue 1] [1, - 2, 1] 1,
      GConvolve example_type ''sin'' example_gstencil [[]] [[]] 0 1,
      Construct example_type [example_queue 1] [1, 1] 0,
      GConvolve example_type ''sin'' example_gstencil [[]] [[]] 0 1]"

text \<open>Two element types of one process, and a filter of each on the same context.\<close>

definition example_float :: real_type where
  "example_float = \<lparr>type_name = ''float'', size_of = 4, size_t_name = ''ulong''\<rparr>"

definition example_double :: real_type where
  "example_double = \<lparr>type_name = ''double'', size_of = 8, size_t_name = ''ulong''\<rparr>"

definition example_two_types :: "int call list" where
  "example_two_types =
     [Construct example_float [example_queue 0] [1, - 2, 1] 1,
      Construct example_double [example_queue 0] [1, - 2, 1] 1]"

text \<open>A device whose \<^verbatim>\<open>sin\<close> adds 100 and whose \<^verbatim>\<open>cos\<close> adds 1000.\<close>

definition example_builtin :: "string \<Rightarrow> int \<Rightarrow> int" where
  "example_builtin name v = (if name = ''sin'' then v + 100 else if name = ''cos'' then v + 1000 else v)"

section \<open>What the kernels are to compute\<close>

text \<open>
  The pure clamped convolution of a sequence \<open>X\<close> with weights \<open>w\<close> and center \<open>c\<close>:
  output \<open>i\<close> is the sum over the weights \<open>j\<close> of \<open>w ! j\<close> times the input at
  \<open>i + j - c\<close>, an index outside the sequence standing for the nearest one inside.
\<close>

definition clamp :: "nat \<Rightarrow> int \<Rightarrow> nat" where
  "clamp n i = (if i < 0 then 0 else if int n \<le> i then n - 1 else nat i)"

definition convolve_pure :: "'a::comm_ring_1 list \<Rightarrow> nat \<Rightarrow> 'a list \<Rightarrow> 'a list" where
  "convolve_pure w c X =
     map (\<lambda>i. sum_list (map (\<lambda>j. w ! j * X ! clamp (length X) (int i + int j - int c)) [0..<length w]))
       [0..<length X]"

text \<open>
  The sum over the taps \<open>k\<close> from \<open>- lh\<close> to \<open>rh\<close> of output \<open>i\<close> whose position \<open>i + k\<close>
  satisfies \<open>P\<close>, the input at a position being \<open>f\<close> of it.
\<close>

definition taps :: "(int \<Rightarrow> bool) \<Rightarrow> (int \<Rightarrow> 'a::comm_ring_1) \<Rightarrow> int \<Rightarrow> int \<Rightarrow> 'a list \<Rightarrow> int \<Rightarrow> 'a" where
  "taps P f lh rh sw i = (\<Sum>k = - lh..rh. if P (i + k) then sw ! nat (lh + k) * f (i + k) else 0)"

text \<open>
  Partition \<open>d\<close> of a vector, continued to the left by the end of the partition before
  it and to the right by the start of the partition after it; at the two ends of the
  vector, by its first and its last element.
\<close>

definition neighbour :: "'a list list \<Rightarrow> nat \<Rightarrow> int \<Rightarrow> 'a" where
  "neighbour x d j =
     (if j < 0
      then (if d > 0 then x ! (d - 1) ! nat (int (length (x ! (d - 1))) + j) else x ! d ! 0)
      else if int (length (x ! d)) \<le> j
      then (if d + 1 < length x then x ! (d + 1) ! nat (j - int (length (x ! d)))
            else x ! d ! (length (x ! d) - 1))
      else x ! d ! nat j)"

text \<open>
  The fast kernel stages the left halo of a work-group through the first \<open>lh\<close>
  work-items of the group, and only through those that own an element. A partition of
  \<open>n\<close> elements is staged completely with groups of \<open>b\<close> items when it fits one group,
  or its last group is full, or its last group owns at least \<open>lh\<close> elements.
\<close>

definition staged :: "nat \<Rightarrow> nat \<Rightarrow> int \<Rightarrow> bool" where
  "staged n b lh \<longleftrightarrow> n \<le> b \<or> n mod b = 0 \<or> lh \<le> int (n mod b)"

text \<open>
  What the load stage of the fast kernel is to put at a local address, for the group
  whose first work-item has the global id \<open>base\<close>: a weight below the address
  \<open>lh + rh + 1\<close>, an input element from \<^verbatim>\<open>xbuf - lhalo\<close> on.
\<close>

definition local_image :: "int \<Rightarrow> int \<Rightarrow> 'a list \<Rightarrow> 'a list \<Rightarrow> nat \<Rightarrow> int \<Rightarrow> 'a option" where
  "local_image lh rh x sw base a =
     (if a < lh + rh + 1 then gread sw a else gread x (int base + (a - (lh + rh + 1 + lh))))"

section \<open>Properties of the build configuration stacks\<close>

lemma bindE_Inr [simp]: "bindE (Inr v) f = f v"
  by (simp add: bindE_def)

lemma bindE_Inl [simp]: "bindE (Inl e) f = Inl e"
  by (simp add: bindE_def)

lemma bindE_eq_Inr: "bindE m f = Inr r \<longleftrightarrow> (\<exists>v. m = Inr v \<and> f v = Inr r)"
  by (cases m) simp_all

lemma at_upd [simp]: "at (opts(dev \<mapsto> v)) dev' = (if dev' = dev then v else at opts dev')"
  by (simp add: at_def)

lemma at_push: "at (push opts dev str) dev' = (if dev' = dev then at opts dev @ [str] else at opts dev')"
  by (simp add: push_def)

lemma at_pop: "at (pop opts dev) dev' = (if dev' = dev then butlast (at opts dev) else at opts dev')"
  by (simp add: pop_def)

lemma fst_get: "fst (get opts dev) = (if at opts dev = [] then [] else last (at opts dev))"
  by (simp add: get_def Let_def)

lemma at_get: "at (snd (get opts dev)) dev' = (if dev' = dev \<and> at opts dev = [] then [''''] else at opts dev')"
  by (simp add: get_def Let_def)

text \<open>
  Claim C10. \<^verbatim>\<open>get\<close> on a device whose stack is empty returns the empty string and
  leaves the stack holding one entry, the empty string. A \<^verbatim>\<open>pop\<close> right after it
  removes that entry, whereas a \<^verbatim>\<open>pop\<close> on the untouched empty stack removes nothing:
  the read has changed the stack. On any stacks, \<^verbatim>\<open>push\<close> followed by \<^verbatim>\<open>pop\<close> on
  the same device restores every stack, and with it the top that \<^verbatim>\<open>get\<close> returns.
\<close>

theorem get_inserts_on_empty_stack:
  assumes "at opts dev = []"
  shows "get opts dev = ('''', opts(dev \<mapsto> ['''']))
       \<and> at (snd (get opts dev)) dev = ['''']
       \<and> at (pop (snd (get opts dev)) dev) dev = []
       \<and> at (pop opts dev) dev = at opts dev
       \<and> at (pop (push opts' dev' str) dev') = at opts'
       \<and> fst (get (pop (push opts' dev' str) dev') dev') = fst (get opts' dev')"
proof -
  have "get opts dev = ('''', opts(dev \<mapsto> ['''']))"
    using assms by (simp add: get_def Let_def)
  moreover have "at (pop (push opts' dev' str) dev') = at opts'"
    by (rule ext) (simp add: at_pop at_push)
  moreover have "fst (get (pop (push opts' dev' str) dev') dev') = fst (get opts' dev')"
    by (simp add: fst_get at_pop at_push)
  ultimately show ?thesis
    using assms by (simp add: at_pop at_get)
qed

theorem get_inserts_on_empty_stack_witness:
  "at Map.empty (0::nat) = []
   \<and> get Map.empty 0 = ('''', [0 \<mapsto> ['''']])
   \<and> at (pop (snd (get Map.empty 0)) 0) 0 = []
   \<and> fst (get (pop (push [0 \<mapsto> [''-g'']] 0 ''-O2'') 0) 0) = ''-g''"
proof -
  have h: "at Map.empty (0::nat) = []" by (simp add: at_def)
  from get_inserts_on_empty_stack [OF h, of "[0 \<mapsto> [''-g'']]" 0 "''-O2''"] h
  show ?thesis by (simp add: fst_get at_pop at_push at_get)
qed

section \<open>Properties of the construction\<close>

lemma build_sources_Inr:
  assumes "build_sources rt g c src opts = Inr (prog, g1)"
  shows "\<exists>co. g1 = g\<lparr>compile_options := co\<rparr>"
  using assms
  by (auto simp add: build_sources_def get_compile_options_def split: list.splits prod.splits if_splits)

lemma compile_compiled:
  assumes "compile rt ty g q = Inr g1"
  shows "compiled g1 = (compiled g)(ty := (compiled g ty)(queue_context q := True))"
  using assms
  by (auto simp add: compile_def fun_upd_idem split: if_splits sum.splits prod.splits dest!: build_sources_Inr)

lemma compile_compilations:
  assumes "compile rt ty g q = Inr g1"
  shows "compilations g1 =
           (if compiled g ty (queue_context q) then compilations g
            else (compilations g)(ty := (compilations g ty)
                   (queue_context q := Suc (compilations g ty (queue_context q)))))"
  using assms
  by (auto simp add: compile_def split: if_splits sum.splits prod.splits dest!: build_sources_Inr)

lemma compile_cached:
  assumes "compile rt ty g q = Inr g1" and "compiled g t c"
  shows "wgsize g1 t c = wgsize g t c \<and> conv_local g1 t c = conv_local g t c
       \<and> conv_local_big g1 t c = conv_local_big g t c \<and> conv_remote g1 t c = conv_remote g t c"
  using assms
  by (auto simp add: compile_def split: if_splits sum.splits prod.splits dest!: build_sources_Inr)

lemma compile_frame:
  assumes "compile rt ty g q = Inr g1"
  shows "g_compiled g1 = g_compiled g \<and> g_compilations g1 = g_compilations g
       \<and> g_conv_local g1 = g_conv_local g \<and> g_conv_remote g1 = g_conv_remote g
       \<and> g_wgsize g1 = g_wgsize g \<and> program_header g1 = program_header g"
  using assms
  by (auto simp add: compile_def split: if_splits sum.splits prod.splits dest!: build_sources_Inr)

lemma smem_of_cong:
  "conv_local g1 ty (queue_context q) = conv_local g ty (queue_context q)
     \<Longrightarrow> smem_of rt ty g1 q = smem_of rt ty g q"
  by (simp add: smem_of_def)

lemma init_devices_spec:
  assumes "init_devices rt ty sz g qs = Inr (g', plans)"
  shows "length plans = length qs
       \<and> (\<forall>t c. compiled g' t c = (compiled g t c \<or> t = ty \<and> c \<in> queue_context ` set qs))
       \<and> (\<forall>t c. compiled g t c \<longrightarrow> wgsize g' t c = wgsize g t c \<and> conv_local g' t c = conv_local g t c
               \<and> conv_local_big g' t c = conv_local_big g t c \<and> conv_remote g' t c = conv_remote g t c)
       \<and> (\<forall>d<length qs. \<exists>smem. smem_of rt ty g' (qs ! d) = Inr smem
               \<and> plans ! d = plan (wgsize g' ty (queue_context (qs ! d))) sz smem)"
  using assms
proof (induction qs arbitrary: g g' plans)
  case Nil
  then show ?case by simp
next
  case (Cons q qs)
  from Cons.prems obtain g1 smem g2 rest where
    c: "compile rt ty g q = Inr g1" and
    m: "smem_of rt ty g1 q = Inr smem" and
    r: "init_devices rt ty sz g1 qs = Inr (g2, rest)" and
    e: "g' = g2" "plans = plan (wgsize g1 ty (queue_context q)) sz smem # rest"
    by (auto split: sum.splits prod.splits)
  note IH = Cons.IH [OF r]
  have c1: "compiled g1 = (compiled g)(ty := (compiled g ty)(queue_context q := True))"
    by (rule compile_compiled [OF c])
  have q1: "compiled g1 ty (queue_context q)" by (simp add: c1)
  have keep: "wgsize g2 ty (queue_context q) = wgsize g1 ty (queue_context q)"
             "conv_local g2 ty (queue_context q) = conv_local g1 ty (queue_context q)"
    using IH q1 by blast+
  have len: "length plans = length (q # qs)" using IH e by simp
  have comp: "\<forall>t c. compiled g' t c = (compiled g t c \<or> t = ty \<and> c \<in> queue_context ` set (q # qs))"
    using IH e c1 by auto
  have cache: "\<forall>t c. compiled g t c \<longrightarrow> wgsize g' t c = wgsize g t c \<and> conv_local g' t c = conv_local g t c
               \<and> conv_local_big g' t c = conv_local_big g t c \<and> conv_remote g' t c = conv_remote g t c"
  proof (intro allI impI)
    fix t c assume cg: "compiled g t c"
    then have "compiled g1 t c" by (auto simp add: c1)
    with IH have "wgsize g2 t c = wgsize g1 t c \<and> conv_local g2 t c = conv_local g1 t c
               \<and> conv_local_big g2 t c = conv_local_big g1 t c \<and> conv_remote g2 t c = conv_remote g1 t c"
      by blast
    with compile_cached [OF c cg] e
    show "wgsize g' t c = wgsize g t c \<and> conv_local g' t c = conv_local g t c
               \<and> conv_local_big g' t c = conv_local_big g t c \<and> conv_remote g' t c = conv_remote g t c"
      by simp
  qed
  have dev: "\<forall>d<length (q # qs). \<exists>smem. smem_of rt ty g' ((q # qs) ! d) = Inr smem
               \<and> plans ! d = plan (wgsize g' ty (queue_context ((q # qs) ! d))) sz smem"
  proof (intro allI impI)
    fix d assume d: "d < length (q # qs)"
    show "\<exists>smem. smem_of rt ty g' ((q # qs) ! d) = Inr smem
               \<and> plans ! d = plan (wgsize g' ty (queue_context ((q # qs) ! d))) sz smem"
    proof (cases d)
      case 0
      have "smem_of rt ty g2 q = smem_of rt ty g1 q"
        by (rule smem_of_cong) (rule keep(2))
      with m e keep 0 show ?thesis by simp
    next
      case (Suc d')
      with d have "d' < length qs" by simp
      with IH Suc e show ?thesis by simp
    qed
  qed
  from len comp cache dev show ?case by blast
qed

lemma init_devices_counts:
  assumes "init_devices rt ty sz g qs = Inr (g', plans)"
      and "\<forall>t c. compilations g t c = (if compiled g t c then 1 else 0)"
  shows "\<forall>t c. compilations g' t c = (if compiled g' t c then 1 else 0)"
  using assms
proof (induction qs arbitrary: g g' plans)
  case Nil
  then show ?case by simp
next
  case (Cons q qs)
  from Cons.prems(1) obtain g1 smem g2 rest where
    c: "compile rt ty g q = Inr g1" and
    r: "init_devices rt ty sz g1 qs = Inr (g2, rest)" and
    e: "g' = g2"
    by (auto split: sum.splits prod.splits)
  have "\<forall>t c. compilations g1 t c = (if compiled g1 t c then 1 else 0)"
    using Cons.prems(2) by (simp add: compile_compiled [OF c] compile_compilations [OF c])
  from Cons.IH [OF r this] e show ?case by simp
qed

lemma init_devices_frame:
  assumes "init_devices rt ty sz g qs = Inr (g', plans)"
  shows "g_compiled g' = g_compiled g \<and> g_compilations g' = g_compilations g
       \<and> g_conv_local g' = g_conv_local g \<and> g_conv_remote g' = g_conv_remote g
       \<and> g_wgsize g' = g_wgsize g \<and> program_header g' = program_header g"
  using assms
proof (induction qs arbitrary: g g' plans)
  case Nil
  then show ?case by simp
next
  case (Cons q qs)
  from Cons.prems(1) obtain g1 smem g2 rest where
    c: "compile rt ty g q = Inr g1" and
    r: "init_devices rt ty sz g1 qs = Inr (g2, rest)" and
    e: "g' = g2"
    by (auto split: sum.splits prod.splits)
  from Cons.IH [OF r] compile_frame [OF c] e show ?case by simp
qed

lemma init_Inr:
  assumes "init rt ty g qs data center = Inr (g', st)"
  shows "qs \<noteq> [] \<and> data \<noteq> [] \<and> center < length data
       \<and> (\<exists>plans. init_devices rt ty (length data) g qs = Inr (g', plans)
             \<and> fast_kernel st = map fst plans \<and> wgs st = map snd plans)
       \<and> queue st = qs \<and> s st = map (\<lambda>q. data) qs
       \<and> lhalo st = int center \<and> rhalo st = int (length data) - int center - 1
       \<and> hbuf st = replicate (length qs * (length data - 1)) 0
       \<and> dbuf st = map (\<lambda>q. replicate (length data - 1) None) qs"
  using assms
  by (auto simp add: init_def nat_diff_distrib split: if_splits sum.splits prod.splits)



lemma halve_above_1024: "halve_above 1024 1024 = 1024"
  by (simp add: halve_above.simps)

lemma halve_above_8: "halve_above 1024 8 = 8"
  by (simp add: halve_above.simps)

lemma example_init:
  "\<exists>g' st. init (example_rt 64 1024) example_type process_start [example_queue 0] [1, - 2, 1 :: int] 1 = Inr (g', st)
     \<and> fast_kernel st = [True] \<and> wgs st = [8] \<and> wgsize g' example_type 0 = 1024"
  by (simp add: init_def compile_def build_sources_def get_compile_options_def get_def at_def smem_of_def
     kernel_workgroup_size_def example_rt_def example_type_def example_queue_def process_start_def
     halve_above_1024 plan_def shrink.simps)



section \<open>Properties of the capacity planner\<close>

lemma shrink_spec:
  "\<exists>k. shrink w sz smem = w div 2 ^ k
     \<and> (\<forall>j<k. sz \<le> w div 2 ^ j \<and> smem < w div 2 ^ j + 2 * sz)
     \<and> \<not> (sz \<le> w div 2 ^ k \<and> smem < w div 2 ^ k + 2 * sz)"
proof (induction w sz smem rule: shrink.induct)
  case (1 w sz smem)
  show ?case
  proof (cases "w \<ge> sz \<and> w + 2 * sz > smem")
    case True
    from "1.IH" [OF True] obtain k where k:
      "shrink (w div 2) sz smem = w div 2 div 2 ^ k"
      "\<forall>j<k. sz \<le> w div 2 div 2 ^ j \<and> smem < w div 2 div 2 ^ j + 2 * sz"
      "\<not> (sz \<le> w div 2 div 2 ^ k \<and> smem < w div 2 div 2 ^ k + 2 * sz)"
      by blast
    have step: "w div 2 div 2 ^ j = w div 2 ^ Suc j" for j
      by (simp add: div_mult2_eq)
    have "sz \<le> w div 2 ^ j \<and> smem < w div 2 ^ j + 2 * sz" if "j < Suc k" for j
    proof (cases j)
      case 0
      with True show ?thesis by simp
    next
      case (Suc j')
      with that have "j' < k" by simp
      with k(2) have "sz \<le> w div 2 div 2 ^ j' \<and> smem < w div 2 div 2 ^ j' + 2 * sz" by blast
      then show ?thesis unfolding step Suc .
    qed
    moreover have "shrink w sz smem = w div 2 ^ Suc k"
      using True k(1) by (subst shrink.simps) (simp only: step if_True simp_thms)
    moreover have "\<not> (sz \<le> w div 2 ^ Suc k \<and> smem < w div 2 ^ Suc k + 2 * sz)"
      using k(3) unfolding step .
    ultimately show ?thesis by blast
  next
    case False
    then have "shrink w sz smem = w" by (subst shrink.simps) auto
    with False show ?thesis by (intro exI [of _ 0]) simp
  qed
qed

text \<open>
  Claim C5. For device \<open>d\<close> of a constructed filter, with the work-group size cached
  for its context as the default and \<open>smem\<close> the local memory left for the kernel, in
  elements: the default was halved \<open>k\<close> times, each time because the size was at least
  the filter width and the size plus twice the width exceeded \<open>smem\<close>, and the size
  reached no longer meets that condition. If it is below the filter width the device
  uses the fallback kernel with the default size, otherwise the fast kernel with the
  size reached.
\<close>

theorem capacity_planning:
  assumes "init rt ty g qs data center = Inr (g', st)" and "d < length qs"
  shows "\<exists>smem k.
           smem_of rt ty g' (qs ! d) = Inr smem
         \<and> (\<forall>j<k. length data \<le> wgsize g' ty (queue_context (qs ! d)) div 2 ^ j
                  \<and> smem < wgsize g' ty (queue_context (qs ! d)) div 2 ^ j + 2 * length data)
         \<and> \<not> (length data \<le> wgsize g' ty (queue_context (qs ! d)) div 2 ^ k
              \<and> smem < wgsize g' ty (queue_context (qs ! d)) div 2 ^ k + 2 * length data)
         \<and> (fast_kernel st ! d, wgs st ! d) =
             (if wgsize g' ty (queue_context (qs ! d)) div 2 ^ k < length data
              then (False, wgsize g' ty (queue_context (qs ! d)))
              else (True, wgsize g' ty (queue_context (qs ! d)) div 2 ^ k))"
proof -
  from init_Inr [OF assms(1)] obtain plans where
    p: "init_devices rt ty (length data) g qs = Inr (g', plans)"
       "fast_kernel st = map fst plans" "wgs st = map snd plans"
    by blast
  from init_devices_spec [OF p(1)] assms(2) obtain smem where
    m: "smem_of rt ty g' (qs ! d) = Inr smem"
       "plans ! d = plan (wgsize g' ty (queue_context (qs ! d))) (length data) smem"
       "length plans = length qs"
    by blast
  obtain k where k:
    "shrink (wgsize g' ty (queue_context (qs ! d))) (length data) smem = wgsize g' ty (queue_context (qs ! d)) div 2 ^ k"
    "\<forall>j<k. length data \<le> wgsize g' ty (queue_context (qs ! d)) div 2 ^ j
             \<and> smem < wgsize g' ty (queue_context (qs ! d)) div 2 ^ j + 2 * length data"
    "\<not> (length data \<le> wgsize g' ty (queue_context (qs ! d)) div 2 ^ k
         \<and> smem < wgsize g' ty (queue_context (qs ! d)) div 2 ^ k + 2 * length data)"
    using shrink_spec by blast
  have "(fast_kernel st ! d, wgs st ! d) = plans ! d"
    using p(2,3) m(3) assms(2) by simp
  also have "\<dots> = (if wgsize g' ty (queue_context (qs ! d)) div 2 ^ k < length data
              then (False, wgsize g' ty (queue_context (qs ! d)))
              else (True, wgsize g' ty (queue_context (qs ! d)) div 2 ^ k))"
    by (simp add: m(2) plan_def k(1))
  finally show ?thesis using m(1) k(2,3) by blast
qed

theorem capacity_planning_witness:
  "\<exists>g' st smem k.
      init (example_rt 64 1024) example_type process_start [example_queue 0] [1, - 2, 1 :: int] 1 = Inr (g', st)
    \<and> (0::nat) < length [example_queue 0]
    \<and> smem_of (example_rt 64 1024) example_type g' ([example_queue 0] ! 0) = Inr smem
    \<and> wgsize g' example_type 0 = 1024 \<and> fast_kernel st ! 0 \<and> wgs st ! 0 = 8
    \<and> (fast_kernel st ! 0, wgs st ! 0) =
        (if wgsize g' example_type (queue_context ([example_queue 0] ! 0)) div 2 ^ k < length [1, - 2, 1 :: int]
         then (False, wgsize g' example_type (queue_context ([example_queue 0] ! 0)))
         else (True, wgsize g' example_type (queue_context ([example_queue 0] ! 0)) div 2 ^ k))"
proof -
  obtain g' and st :: "int stencil" where
    i: "init (example_rt 64 1024) example_type process_start [example_queue 0] [1, - 2, 1 :: int] 1 = Inr (g', st)"
       "fast_kernel st = [True]" "wgs st = [8]" "wgsize g' example_type 0 = 1024"
    using example_init by blast
  have d: "(0::nat) < length [example_queue 0]" by simp
  from capacity_planning [OF i(1) d] obtain smem k where sk:
    "smem_of (example_rt 64 1024) example_type g' ([example_queue 0] ! 0) = Inr smem"
    "(fast_kernel st ! 0, wgs st ! 0) =
        (if wgsize g' example_type (queue_context ([example_queue 0] ! 0)) div 2 ^ k < length [1, - 2, 1 :: int]
         then (False, wgsize g' example_type (queue_context ([example_queue 0] ! 0)))
         else (True, wgsize g' example_type (queue_context ([example_queue 0] ! 0)) div 2 ^ k))"
    by blast
  have f: "fast_kernel st ! 0" "wgs st ! 0 = 8" using i(2,3) by simp_all
  from i(1) d sk f i(4) show ?thesis by blast
qed

section \<open>Properties of the compilation cache\<close>

lemma gcompile_compiled:
  assumes "gcompile rt ty func g q = Inr g1"
  shows "g_compiled g1 = (g_compiled g)(ty := (g_compiled g ty)(func := (g_compiled g ty func)(queue_context q := True)))"
  using assms
  by (auto simp add: gcompile_def fun_upd_idem split: if_splits sum.splits prod.splits dest!: build_sources_Inr)

lemma gcompile_compilations:
  assumes "gcompile rt ty func g q = Inr g1"
  shows "g_compilations g1 =
           (if g_compiled g ty func (queue_context q) then g_compilations g
            else (g_compilations g)(ty := (g_compilations g ty)(func := (g_compilations g ty func)
                   (queue_context q := Suc (g_compilations g ty func (queue_context q))))))"
  using assms
  by (auto simp add: gcompile_def split: if_splits sum.splits prod.splits dest!: build_sources_Inr)

lemma gcompile_cached:
  assumes "gcompile rt ty func g q = Inr g1" and "g_compiled g t f c"
  shows "g_wgsize g1 t f c = g_wgsize g t f c \<and> g_conv_local g1 t f c = g_conv_local g t f c
       \<and> g_conv_remote g1 t f c = g_conv_remote g t f c"
  using assms
  by (auto simp add: gcompile_def split: if_splits sum.splits prod.splits dest!: build_sources_Inr)

lemma gcompile_frame:
  assumes "gcompile rt ty func g q = Inr g1"
  shows "compiled g1 = compiled g \<and> compilations g1 = compilations g
       \<and> conv_local g1 = conv_local g \<and> conv_local_big g1 = conv_local_big g
       \<and> conv_remote g1 = conv_remote g \<and> wgsize g1 = wgsize g \<and> program_header g1 = program_header g"
  using assms
  by (auto simp add: gcompile_def split: if_splits sum.splits prod.splits dest!: build_sources_Inr)

lemma gcompile_counted:
  assumes "gcompile rt ty func g q = Inr g1" and "counted g"
  shows "counted g1"
proof -
  note c1 = gcompile_compiled [OF assms(1)]
  note c2 = gcompile_compilations [OF assms(1)]
  note c3 = gcompile_frame [OF assms(1)]
  from assms(2) have p: "\<forall>t c. compilations g t c = (if compiled g t c then 1 else 0)"
    and q: "\<forall>t f c. g_compilations g t f c = (if g_compiled g t f c then 1 else 0)"
    by (simp_all add: counted_def)
  have "\<forall>t c. compilations g1 t c = (if compiled g1 t c then 1 else 0)"
    using p c3 by simp
  moreover have "g_compilations g1 t f c = (if g_compiled g1 t f c then 1 else 0)" for t f c
    using q by (simp add: c1 c2)
  ultimately show ?thesis by (simp add: counted_def)
qed

lemma gcompile_all_spec:
  assumes "gcompile_all rt ty func g qs = Inr g'"
  shows "(\<forall>t f c. g_compiled g' t f c
             = (g_compiled g t f c \<or> (t, f, c) \<in> (\<lambda>q. (ty, func, queue_context q)) ` set qs))
       \<and> (\<forall>t f c. g_compiled g t f c \<longrightarrow> g_wgsize g' t f c = g_wgsize g t f c
               \<and> g_conv_local g' t f c = g_conv_local g t f c
               \<and> g_conv_remote g' t f c = g_conv_remote g t f c)
       \<and> compiled g' = compiled g \<and> compilations g' = compilations g
       \<and> conv_local g' = conv_local g \<and> conv_local_big g' = conv_local_big g
       \<and> conv_remote g' = conv_remote g \<and> wgsize g' = wgsize g
       \<and> (counted g \<longrightarrow> counted g')"
  using assms
proof (induction qs arbitrary: g)
  case Nil
  then show ?case by simp
next
  case (Cons q qs)
  from Cons.prems obtain g1 where
    c: "gcompile rt ty func g q = Inr g1" and r: "gcompile_all rt ty func g1 qs = Inr g'"
    by (auto simp add: bindE_eq_Inr)
  note IH = Cons.IH [OF r]
  note c1 = gcompile_compiled [OF c]
  note c3 = gcompile_frame [OF c]
  have a: "\<forall>t f c. g_compiled g' t f c
             = (g_compiled g t f c \<or> (t, f, c) \<in> (\<lambda>q. (ty, func, queue_context q)) ` set (q # qs))"
    using IH by (auto simp add: c1)
  have b: "\<forall>t f c. g_compiled g t f c \<longrightarrow> g_wgsize g' t f c = g_wgsize g t f c
               \<and> g_conv_local g' t f c = g_conv_local g t f c
               \<and> g_conv_remote g' t f c = g_conv_remote g t f c"
  proof (intro allI impI)
    fix t f c assume h: "g_compiled g t f c"
    then have "g_compiled g1 t f c" by (auto simp add: c1)
    with IH gcompile_cached [OF c h]
    show "g_wgsize g' t f c = g_wgsize g t f c \<and> g_conv_local g' t f c = g_conv_local g t f c
               \<and> g_conv_remote g' t f c = g_conv_remote g t f c"
      by simp
  qed
  have "counted g \<longrightarrow> counted g1" using gcompile_counted [OF c] by blast
  with IH have d: "counted g \<longrightarrow> counted g'" by blast
  from a b d IH c3 show ?case by simp
qed

lemma init_statics:
  assumes "init rt ty g qs data center = Inr (g', st)"
  shows "(\<forall>t c. compiled g' t c = (compiled g t c \<or> (t, c) \<in> (\<lambda>q. (ty, queue_context q)) ` set qs))
       \<and> (\<forall>t c. compiled g t c \<longrightarrow> wgsize g' t c = wgsize g t c \<and> conv_local g' t c = conv_local g t c
               \<and> conv_local_big g' t c = conv_local_big g t c \<and> conv_remote g' t c = conv_remote g t c)
       \<and> g_compiled g' = g_compiled g \<and> g_conv_local g' = g_conv_local g
       \<and> g_conv_remote g' = g_conv_remote g \<and> g_wgsize g' = g_wgsize g
       \<and> g_compilations g' = g_compilations g
       \<and> (counted g \<longrightarrow> counted g')"
proof -
  from init_Inr [OF assms] obtain plans where
    p: "init_devices rt ty (length data) g qs = Inr (g', plans)" by blast
  note a = init_devices_spec [OF p] and b = init_devices_frame [OF p] and c = init_devices_counts [OF p]
  have 1: "\<forall>t c. compiled g' t c = (compiled g t c \<or> (t, c) \<in> (\<lambda>q. (ty, queue_context q)) ` set qs)"
    using a by auto
  have 2: "counted g \<longrightarrow> counted g'" using b c by (simp add: counted_def)
  from 1 2 a b show ?thesis by simp
qed

text \<open>What a generalized convolution leaves in the caches, also when its kernels fail\<close>

lemma gconvolve_statics:
  assumes "gconvolve rt ty builtin func g st x y alpha beta = Inr (g', st', y')"
  shows "gcompile_all rt ty func g (g_queue st) = Inr g'"
  using assms
  by (auto simp add: gconvolve_def bindE_eq_Inr split: if_splits)

lemma run_GConvolve:
  assumes "run rt builtin g (GConvolve ty func st x y alpha beta # calls) = Inr g'"
  shows "\<exists>g1. gcompile_all rt ty func g (g_queue st) = Inr g1 \<and> run rt builtin g1 calls = Inr g'"
proof (cases "gconvolve rt ty builtin func g st x y alpha beta")
  case (Inr r)
  obtain g1 st' y' where r: "r = (g1, st', y')" by (cases r)
  from gconvolve_statics [OF Inr [unfolded r]] assms Inr r show ?thesis by simp
next
  case (Inl e)
  with assms show ?thesis by (auto split: if_splits sum.splits)
qed

lemma run_spec:
  assumes "run rt builtin g calls = Inr g'" and "counted g"
  shows "counted g'
       \<and> (\<forall>t c. compiled g' t c = (compiled g t c \<or> (t, c) \<in> plain_keys calls))
       \<and> (\<forall>t f c. g_compiled g' t f c = (g_compiled g t f c \<or> (t, f, c) \<in> g_keys calls))
       \<and> (\<forall>t c. compiled g t c \<longrightarrow> conv_local g' t c = conv_local g t c
               \<and> conv_local_big g' t c = conv_local_big g t c \<and> conv_remote g' t c = conv_remote g t c)
       \<and> (\<forall>t f c. g_compiled g t f c \<longrightarrow> g_conv_local g' t f c = g_conv_local g t f c
               \<and> g_conv_remote g' t f c = g_conv_remote g t f c)"
  using assms
proof (induction calls arbitrary: g)
  case Nil
  then show ?case by simp
next
  case (Cons call calls)
  show ?case
  proof (cases call)
    case (Construct ty qs data center)
    with Cons.prems(1) obtain g1 and st :: "'a stencil" where
      i: "init rt ty g qs data center = Inr (g1, st)" and r: "run rt builtin g1 calls = Inr g'"
      by (auto split: sum.splits)
    note a = init_statics [OF i]
    from a Cons.prems(2) have "counted g1" by blast
    note IH = Cons.IH [OF r this]
    have 1: "\<forall>t c. compiled g' t c = (compiled g t c \<or> (t, c) \<in> plain_keys (call # calls))"
      using IH a Construct by auto
    have 2: "\<forall>t f c. g_compiled g' t f c = (g_compiled g t f c \<or> (t, f, c) \<in> g_keys (call # calls))"
      using IH a Construct by auto
    have 3: "\<forall>t c. compiled g t c \<longrightarrow> conv_local g' t c = conv_local g t c
               \<and> conv_local_big g' t c = conv_local_big g t c \<and> conv_remote g' t c = conv_remote g t c"
    proof (intro allI impI)
      fix t c assume h: "compiled g t c"
      with a have "compiled g1 t c" by blast
      with IH a h show "conv_local g' t c = conv_local g t c
               \<and> conv_local_big g' t c = conv_local_big g t c \<and> conv_remote g' t c = conv_remote g t c"
        by simp
    qed
    have 4: "\<forall>t f c. g_compiled g t f c \<longrightarrow> g_conv_local g' t f c = g_conv_local g t f c
               \<and> g_conv_remote g' t f c = g_conv_remote g t f c"
      using IH a by simp
    from IH 1 2 3 4 show ?thesis by blast
  next
    case (GConvolve ty func st x y alpha beta)
    from run_GConvolve [OF Cons.prems(1) [unfolded GConvolve]] obtain g1 where
      i: "gcompile_all rt ty func g (g_queue st) = Inr g1"
      and r: "run rt builtin g1 calls = Inr g'"
      by blast
    note a = gcompile_all_spec [OF i]
    from a Cons.prems(2) have "counted g1" by blast
    note IH = Cons.IH [OF r this]
    have 1: "\<forall>t c. compiled g' t c = (compiled g t c \<or> (t, c) \<in> plain_keys (call # calls))"
      using IH a GConvolve by auto
    have 2: "\<forall>t f c. g_compiled g' t f c = (g_compiled g t f c \<or> (t, f, c) \<in> g_keys (call # calls))"
      using IH a GConvolve by auto
    have 3: "\<forall>t c. compiled g t c \<longrightarrow> conv_local g' t c = conv_local g t c
               \<and> conv_local_big g' t c = conv_local_big g t c \<and> conv_remote g' t c = conv_remote g t c"
      using IH a by simp
    have 4: "\<forall>t f c. g_compiled g t f c \<longrightarrow> g_conv_local g' t f c = g_conv_local g t f c
               \<and> g_conv_remote g' t f c = g_conv_remote g t f c"
    proof (intro allI impI)
      fix t f c assume h: "g_compiled g t f c"
      with a have "g_compiled g1 t f c" by blast
      with IH a h show "g_conv_local g' t f c = g_conv_local g t f c
               \<and> g_conv_remote g' t f c = g_conv_remote g t f c"
        by simp
    qed
    from IH 1 2 3 4 show ?thesis by blast
  qed
qed

lemma counted_start: "counted process_start"
  by (simp add: counted_def process_start_def)

lemma example_run:
  "\<exists>g. run (example_rt 32768 8) (\<lambda>f v. v) process_start example_calls = Inr g"
  by (simp add: example_calls_def init_def compile_def build_sources_def get_compile_options_def get_def at_def
     smem_of_def kernel_workgroup_size_def example_rt_def example_type_def example_queue_def process_start_def
     halve_above_8 plan_def shrink.simps gconvolve_def gcompile_def example_gstencil_def g_interior_def
     launch_g_conv_local_def alignup_def)

lemma example_sources: "stencil_source example_float \<noteq> stencil_source example_double"
  by (simp add: stencil_source_def example_float_def example_double_def)

lemma example_run_two_types:
  "\<exists>g. run (example_rt 32768 8) (\<lambda>f v. v) process_start example_two_types = Inr g
       \<and> conv_local g example_float 0 = Some ((stencil_source example_float, '' ''), ''conv_local'')
       \<and> conv_local g example_double 0 = Some ((stencil_source example_double, '' ''), ''conv_local'')"
  by (simp add: example_two_types_def init_def compile_def build_sources_def get_compile_options_def get_def
     at_def smem_of_def kernel_workgroup_size_def example_rt_def example_float_def example_double_def
     example_queue_def process_start_def halve_above_8 plan_def shrink.simps)

text \<open>
  Claim C8. The key of a cache entry is the element type with the context for the
  plain filter, and the element type with the transform and the context for the
  generalized filter. In a process that started with nothing compiled and has run any
  calls, none ended by an error that the code raises, the plain filter's program has
  been built exactly once for every key a construction used and never for another, and
  the generalized filter's program exactly once for every key that a convolution used.
  Whatever calls follow, the count of such a key stays one and its cached kernels stay
  the ones the first call stored. For the plain filter the call that compiles is the
  construction; its convolution only uses the cached kernels.
\<close>

theorem compile_once:
  assumes "run rt builtin process_start calls = Inr g"
  shows "compilations g ty c = (if (ty, c) \<in> plain_keys calls then 1 else 0)
       \<and> g_compilations g ty func c = (if (ty, func, c) \<in> g_keys calls then 1 else 0)
       \<and> (\<forall>more g'. run rt builtin g more = Inr g' \<longrightarrow>
             ((ty, c) \<in> plain_keys calls \<longrightarrow> compilations g' ty c = 1
                \<and> conv_local g' ty c = conv_local g ty c
                \<and> conv_local_big g' ty c = conv_local_big g ty c
                \<and> conv_remote g' ty c = conv_remote g ty c)
           \<and> ((ty, func, c) \<in> g_keys calls \<longrightarrow> g_compilations g' ty func c = 1
                \<and> g_conv_local g' ty func c = g_conv_local g ty func c
                \<and> g_conv_remote g' ty func c = g_conv_remote g ty func c))"
proof -
  note a = run_spec [OF assms counted_start]
  have c1: "compiled g ty c = ((ty, c) \<in> plain_keys calls)"
    using a by (simp add: process_start_def)
  have c2: "g_compiled g ty func c = ((ty, func, c) \<in> g_keys calls)"
    using a by (simp add: process_start_def)
  from a have cg: "counted g" by blast
  have 1: "compilations g ty c = (if (ty, c) \<in> plain_keys calls then 1 else 0)"
    using cg c1 by (simp add: counted_def)
  have 2: "g_compilations g ty func c = (if (ty, func, c) \<in> g_keys calls then 1 else 0)"
    using cg c2 by (simp add: counted_def)
  have 3: "((ty, c) \<in> plain_keys calls \<longrightarrow> compilations g' ty c = 1
                \<and> conv_local g' ty c = conv_local g ty c
                \<and> conv_local_big g' ty c = conv_local_big g ty c
                \<and> conv_remote g' ty c = conv_remote g ty c)
           \<and> ((ty, func, c) \<in> g_keys calls \<longrightarrow> g_compilations g' ty func c = 1
                \<and> g_conv_local g' ty func c = g_conv_local g ty func c
                \<and> g_conv_remote g' ty func c = g_conv_remote g ty func c)"
    if r: "run rt builtin g more = Inr g'" for more g'
  proof -
    note b = run_spec [OF r cg]
    from b have cg': "counted g'" by blast
    show ?thesis
    proof (intro conjI impI)
      assume k: "(ty, c) \<in> plain_keys calls"
      with c1 have h: "compiled g ty c" by simp
      with b have "compiled g' ty c" by blast
      with cg' show "compilations g' ty c = 1" by (simp add: counted_def)
      from b h show "conv_local g' ty c = conv_local g ty c" by blast
      from b h show "conv_local_big g' ty c = conv_local_big g ty c" by blast
      from b h show "conv_remote g' ty c = conv_remote g ty c" by blast
    next
      assume k: "(ty, func, c) \<in> g_keys calls"
      with c2 have h: "g_compiled g ty func c" by simp
      with b have "g_compiled g' ty func c" by blast
      with cg' show "g_compilations g' ty func c = 1" by (simp add: counted_def)
      from b h show "g_conv_local g' ty func c = g_conv_local g ty func c" by blast
      from b h show "g_conv_remote g' ty func c = g_conv_remote g ty func c" by blast
    qed
  qed
  from 1 2 3 show ?thesis by blast
qed

theorem compile_once_witness:
  "\<exists>g. run (example_rt 32768 8) (\<lambda>f v. v) process_start example_calls = Inr g
     \<and> compilations g example_type 0 = 1 \<and> compilations g example_type 1 = 0
     \<and> compilations g example_float 0 = 0
     \<and> g_compilations g example_type ''sin'' 0 = 1 \<and> g_compilations g example_type ''cos'' 0 = 0"
proof -
  obtain g where r: "run (example_rt 32768 8) (\<lambda>f v. v) process_start example_calls = Inr g"
    using example_run by blast
  have k: "plain_keys example_calls = {(example_type, 0)}" "g_keys example_calls = {(example_type, ''sin'', 0)}"
    by (auto simp add: example_calls_def example_queue_def example_gstencil_def)
  have t: "example_float \<noteq> example_type" by (simp add: example_float_def example_type_def)
  from compile_once [OF r, of example_type 0 "''sin''"] compile_once [OF r, of example_type 1 "''cos''"]
    compile_once [OF r, of example_type 0 "''cos''"] compile_once [OF r, of example_float 0 "''sin''"] r k t
  show ?thesis by auto
qed

text \<open>
  With the context alone as the key the count is not one: filters of two element
  types on the same context build two programs for it, one for each type.
\<close>

theorem compile_once_counterexample:
  "\<exists>g. run (example_rt 32768 8) (\<lambda>f v. v) process_start example_two_types = Inr g
     \<and> plain_keys example_two_types = {(example_float, 0), (example_double, 0)}
     \<and> compilations g example_float 0 + compilations g example_double 0 = 2
     \<and> conv_local g example_float 0 \<noteq> conv_local g example_double 0"
proof -
  obtain g where r: "run (example_rt 32768 8) (\<lambda>f v. v) process_start example_two_types = Inr g"
     and k: "conv_local g example_float 0 = Some ((stencil_source example_float, '' ''), ''conv_local'')"
            "conv_local g example_double 0 = Some ((stencil_source example_double, '' ''), ''conv_local'')"
    using example_run_two_types by blast
  have p: "plain_keys example_two_types = {(example_float, 0), (example_double, 0)}"
    by (auto simp add: example_two_types_def example_queue_def)
  have c: "counted g" using run_spec [OF r counted_start] by blast
  have d: "compiled g example_float 0" "compiled g example_double 0"
    using run_spec [OF r counted_start] p by simp_all
  with c have "compilations g example_float 0 + compilations g example_double 0 = 2"
    by (simp add: counted_def)
  moreover have "conv_local g example_float 0 \<noteq> conv_local g example_double 0"
    unfolding k using example_sources by simp
  ultimately show ?thesis using r p by blast
qed

section \<open>The kernels and the host code of the plain filter, verified\<close>

lemma run_items_append: "run_items f (xs @ ys) st = bindE (run_items f xs st) (run_items f ys)"
  by (induction xs arbitrary: st) (simp_all add: bindE_def split: sum.splits)

lemma run_items_invariant:
  assumes "I 0 st0"
      and "\<And>i st. i < m \<Longrightarrow> I i st \<Longrightarrow> \<exists>st'. f i st = Inr st' \<and> I (Suc i) st'"
  shows "\<exists>st'. run_items f [0..<m] st0 = Inr st' \<and> I m st'"
  using assms(2)
proof (induction m)
  case 0
  with assms(1) show ?case by simp
next
  case (Suc m)
  from Suc.IH Suc.prems obtain st1 where a: "run_items f [0..<m] st0 = Inr st1" "I m st1"
    by (meson less_Suc_eq)
  from Suc.prems [of m st1] a(2) obtain st2 where b: "f m st1 = Inr st2" "I (Suc m) st2"
    by blast
  from a b show ?case by (simp add: run_items_append)
qed

lemma fold_madd:
  assumes "\<And>k. k \<in> set ks \<Longrightarrow> P k \<Longrightarrow> A k = Some (a k) \<and> B k = Some (b k)"
  shows "fold (\<lambda>k acc. if P k then madd acc (A k) (B k) else acc) ks (Some v)
           = Some (v + sum_list (map (\<lambda>k. if P k then a k * b k else 0) ks))"
  using assms
proof (induction ks arbitrary: v)
  case Nil
  then show ?case by simp
next
  case (Cons k ks)
  show ?case
  proof (cases "P k")
    case True
    with Cons.prems [of k] have "A k = Some (a k)" "B k = Some (b k)" by simp_all
    with True Cons.IH [of "v + a k * b k"] Cons.prems show ?thesis
      by (simp add: add.assoc)
  next
    case False
    with Cons.IH [of v] Cons.prems show ?thesis by simp
  qed
qed

lemma fold_madd_upto:
  assumes "\<And>k. lo \<le> k \<Longrightarrow> k \<le> hi \<Longrightarrow> P k \<Longrightarrow> A k = Some (a k) \<and> B k = Some (b k)"
  shows "fold (\<lambda>k acc. if P k then madd acc (A k) (B k) else acc) [lo..hi] (Some 0)
           = Some (\<Sum>k = lo..hi. if P k then a k * b k else 0)"
proof -
  have "fold (\<lambda>k acc. if P k then madd acc (A k) (B k) else acc) [lo..hi] (Some 0)
           = Some (0 + sum_list (map (\<lambda>k. if P k then a k * b k else 0) [lo..hi]))"
    by (rule fold_madd) (use assms in auto)
  then show ?thesis by (simp add: interv_sum_list_conv_sum_set_int)
qed

lemma gread_Some: "0 \<le> i \<Longrightarrow> i < int (length buf) \<Longrightarrow> gread buf i = Some (buf ! nat i)"
  by (simp add: gread_def)

lemma conv_local_big_sum_eq:
  assumes "0 \<le> lh" "0 \<le> rh" "int (length sw) = lh + rh + 1" "n = length x"
  shows "conv_local_big_sum n lh rh x sw g = Some (taps (\<lambda>j. 0 \<le> j \<and> j < int n) (\<lambda>j. x ! nat j) lh rh sw g)"
  unfolding conv_local_big_sum_def taps_def
  by (rule fold_madd_upto) (use assms in \<open>auto simp add: gread_def\<close>)

lemma blend_store_Some:
  assumes "i < length y"
  shows "blend_store y (int i) alpha beta (Some v)
           = Inr (y[i := (if alpha \<noteq> 0 then alpha * y ! i else 0) + beta * v])"
  using assms by (simp add: blend_store_def gread_def gwrite_def)

text \<open>What the interior phase leaves in element i\<close>

lemma launch_conv_local_big_spec:
  assumes "0 \<le> lh" "0 \<le> rh" "int (length sw) = lh + rh + 1" "n = length x" "length y = n" "n \<le> g_size"
  shows "\<exists>y'. launch_conv_local_big n lh rh x sw alpha beta g_size y = Inr y' \<and> length y' = n
           \<and> (\<forall>i<n. y' ! i = (if alpha \<noteq> 0 then alpha * y ! i else 0)
                 + beta * taps (\<lambda>j. 0 \<le> j \<and> j < int n) (\<lambda>j. x ! nat j) lh rh sw (int i))"
proof -
  define new where "new i = (if alpha \<noteq> 0 then alpha * y ! i else 0)
                 + beta * taps (\<lambda>j. 0 \<le> j \<and> j < int n) (\<lambda>j. x ! nat j) lh rh sw (int i)" for i
  define I where "I m y' \<longleftrightarrow> length y' = n \<and> (\<forall>i<n. y' ! i = (if i < m then new i else y ! i))" for m y'
  have "\<exists>y'. run_items (conv_local_big_item n lh rh x sw alpha beta) [0..<g_size] y = Inr y' \<and> I g_size y'"
  proof (rule run_items_invariant)
    show "I 0 y" using assms(5) by (simp add: I_def)
  next
    fix m y1 assume m: "m < g_size" and i: "I m y1"
    show "\<exists>y2. conv_local_big_item n lh rh x sw alpha beta m y1 = Inr y2 \<and> I (Suc m) y2"
    proof (cases "m < n")
      case True
      with i have len: "m < length y1" and ym: "y1 ! m = y ! m" by (simp_all add: I_def)
      have "conv_local_big_item n lh rh x sw alpha beta m y1 = Inr (y1[m := new m])"
        using True len ym
        by (simp add: conv_local_big_item_def conv_local_big_sum_eq [OF assms(1-4)] blend_store_Some new_def)
      moreover have "I (Suc m) (y1[m := new m])"
        using i by (auto simp add: I_def nth_list_update less_Suc_eq)
      ultimately show ?thesis by blast
    next
      case False
      then have "conv_local_big_item n lh rh x sw alpha beta m y1 = Inr y1"
        by (simp add: conv_local_big_item_def)
      moreover from False i have "I (Suc m) y1" by (auto simp add: I_def)
      ultimately show ?thesis by blast
    qed
  qed
  then obtain y' where "launch_conv_local_big n lh rh x sw alpha beta g_size y = Inr y'" "I g_size y'"
    by (auto simp add: launch_conv_local_big_def)
  with assms(6) show ?thesis by (auto simp add: I_def new_def)
qed

lemma lwrite_if_step:
  assumes "c \<longrightarrow> 0 \<le> a \<and> a < int lsize" and "c \<longrightarrow> v = E a"
  shows "\<exists>loc'. (if c then lwrite lsize loc a v else Inr loc) = Inr loc'
           \<and> (\<forall>a'. loc a' = E a' \<longrightarrow> loc' a' = E a') \<and> (c \<longrightarrow> loc' a = E a)"
  using assms by (auto simp add: lwrite_def)

text \<open>One work-item of the load stage succeeds, keeps what agrees with the image and adds its share\<close>

lemma conv_local_load_step:
  assumes "0 \<le> lh" "0 \<le> rh" "l < b" "int b + 2 * (lh + rh) + 1 \<le> int lsize"
  shows "\<exists>loc'. conv_local_load n lh rh x sw b lsize grp l loc = Inr loc'
       \<and> (\<forall>a. loc a = local_image lh rh x sw (grp * b) a \<longrightarrow> loc' a = local_image lh rh x sw (grp * b) a)
       \<and> (int l < lh + rh + 1 \<longrightarrow> loc' (int l) = local_image lh rh x sw (grp * b) (int l))
       \<and> (grp * b + l < n \<longrightarrow>
            loc' (lh + rh + 1 + lh + int l) = local_image lh rh x sw (grp * b) (lh + rh + 1 + lh + int l)
          \<and> (int l < lh \<and> lh \<le> int (grp * b + l) \<longrightarrow>
               loc' (lh + rh + 1 + lh + (int l - lh))
                 = local_image lh rh x sw (grp * b) (lh + rh + 1 + lh + (int l - lh)))
          \<and> (int l + rh < int b \<or> int (grp * b + l) + rh < int n \<longrightarrow>
               loc' (lh + rh + 1 + lh + (int l + rh))
                 = local_image lh rh x sw (grp * b) (lh + rh + 1 + lh + (int l + rh))))"
proof -
  let ?E = "local_image lh rh x sw (grp * b)"
  have e1: "int l < lh + rh + 1 \<longrightarrow> gread sw (int l) = ?E (int l)"
    by (simp add: local_image_def)
  have e2: "True \<longrightarrow> gread x (int (grp * b + l)) = ?E (lh + rh + 1 + lh + int l)"
    using assms by (simp add: local_image_def)
  have e3: "int l < lh \<and> int (grp * b + l) \<ge> lh \<longrightarrow> gread x (int (grp * b + l) - lh) = ?E (lh + rh + 1 + lh + (int l - lh))"
    using assms by (simp add: local_image_def algebra_simps)
  have e4: "int l + rh < int b \<or> int (grp * b + l) + rh < int n
              \<longrightarrow> gread x (int (grp * b + l) + rh) = ?E (lh + rh + 1 + lh + (int l + rh))"
    using assms by (simp add: local_image_def algebra_simps)
  have b1: "int l < lh + rh + 1 \<longrightarrow> 0 \<le> int l \<and> int l < int lsize"
    using assms by simp
  have b2: "True \<longrightarrow> 0 \<le> lh + rh + 1 + lh + int l \<and> lh + rh + 1 + lh + int l < int lsize"
    using assms by simp
  have b3: "int l < lh \<and> int (grp * b + l) \<ge> lh
              \<longrightarrow> 0 \<le> lh + rh + 1 + lh + (int l - lh) \<and> lh + rh + 1 + lh + (int l - lh) < int lsize"
    using assms by simp
  have b4: "int l + rh < int b \<or> int (grp * b + l) + rh < int n
              \<longrightarrow> 0 \<le> lh + rh + 1 + lh + (int l + rh) \<and> lh + rh + 1 + lh + (int l + rh) < int lsize"
    using assms by simp
  from lwrite_if_step [where E = "?E" and loc = loc, OF b1 e1] obtain loc1 where 1:
    "(if int l < lh + rh + 1 then lwrite lsize loc (int l) (gread sw (int l)) else Inr loc) = Inr loc1"
    "\<forall>a. loc a = ?E a \<longrightarrow> loc1 a = ?E a"
    "int l < lh + rh + 1 \<longrightarrow> loc1 (int l) = ?E (int l)"
    by blast
  show ?thesis
  proof (cases "grp * b + l < n")
    case False
    then have "conv_local_load n lh rh x sw b lsize grp l loc = Inr loc1"
      unfolding conv_local_load_def by (simp only: 1(1) bindE_Inr if_False)
    with False 1 show ?thesis by simp
  next
    case True
    from lwrite_if_step [where E = "?E" and loc = loc1, OF b2 e2] obtain loc2 where 2:
      "lwrite lsize loc1 (lh + rh + 1 + lh + int l) (gread x (int (grp * b + l))) = Inr loc2"
      "\<forall>a. loc1 a = ?E a \<longrightarrow> loc2 a = ?E a"
      "loc2 (lh + rh + 1 + lh + int l) = ?E (lh + rh + 1 + lh + int l)"
      by (auto simp only: if_True simp_thms)
    from lwrite_if_step [where E = "?E" and loc = loc2, OF b3 e3] obtain loc3 where 3:
      "(if int l < lh \<and> int (grp * b + l) \<ge> lh
        then lwrite lsize loc2 (lh + rh + 1 + lh + (int l - lh)) (gread x (int (grp * b + l) - lh))
        else Inr loc2) = Inr loc3"
      "\<forall>a. loc2 a = ?E a \<longrightarrow> loc3 a = ?E a"
      "int l < lh \<and> lh \<le> int (grp * b + l) \<longrightarrow>
         loc3 (lh + rh + 1 + lh + (int l - lh)) = ?E (lh + rh + 1 + lh + (int l - lh))"
      by blast
    from lwrite_if_step [where E = "?E" and loc = loc3, OF b4 e4] obtain loc4 where 4:
      "(if int l + rh < int b \<or> int (grp * b + l) + rh < int n
        then lwrite lsize loc3 (lh + rh + 1 + lh + (int l + rh)) (gread x (int (grp * b + l) + rh))
        else Inr loc3) = Inr loc4"
      "\<forall>a. loc3 a = ?E a \<longrightarrow> loc4 a = ?E a"
      "int l + rh < int b \<or> int (grp * b + l) + rh < int n \<longrightarrow>
         loc4 (lh + rh + 1 + lh + (int l + rh)) = ?E (lh + rh + 1 + lh + (int l + rh))"
      by blast
    have "conv_local_load n lh rh x sw b lsize grp l loc = Inr loc4"
      unfolding conv_local_load_def using True
      by (simp only: 1(1) 2(1) 3(1) 4(1) bindE_Inr if_True)
    with True 1 2 3 4 show ?thesis by simp
  qed
qed

text \<open>After the load stage, local memory agrees with the image wherever a work-item wrote\<close>

lemma conv_local_stage:
  assumes "0 \<le> lh" "0 \<le> rh" "int b + 2 * (lh + rh) + 1 \<le> int lsize"
  shows "\<exists>loc. run_items (conv_local_load n lh rh x sw b lsize grp) [0..<b] (\<lambda>a. None) = Inr loc
       \<and> (\<forall>l<b.
            (int l < lh + rh + 1 \<longrightarrow> loc (int l) = local_image lh rh x sw (grp * b) (int l))
          \<and> (grp * b + l < n \<longrightarrow>
               loc (lh + rh + 1 + lh + int l) = local_image lh rh x sw (grp * b) (lh + rh + 1 + lh + int l)
             \<and> (int l < lh \<and> lh \<le> int (grp * b + l) \<longrightarrow>
                  loc (lh + rh + 1 + lh + (int l - lh))
                    = local_image lh rh x sw (grp * b) (lh + rh + 1 + lh + (int l - lh)))
             \<and> (int l + rh < int b \<or> int (grp * b + l) + rh < int n \<longrightarrow>
                  loc (lh + rh + 1 + lh + (int l + rh))
                    = local_image lh rh x sw (grp * b) (lh + rh + 1 + lh + (int l + rh)))))"
proof -
  let ?E = "local_image lh rh x sw (grp * b)"
  define C where "C l loc \<longleftrightarrow>
            (int l < lh + rh + 1 \<longrightarrow> loc (int l) = ?E (int l))
          \<and> (grp * b + l < n \<longrightarrow>
               loc (lh + rh + 1 + lh + int l) = ?E (lh + rh + 1 + lh + int l)
             \<and> (int l < lh \<and> lh \<le> int (grp * b + l) \<longrightarrow>
                  loc (lh + rh + 1 + lh + (int l - lh)) = ?E (lh + rh + 1 + lh + (int l - lh)))
             \<and> (int l + rh < int b \<or> int (grp * b + l) + rh < int n \<longrightarrow>
                  loc (lh + rh + 1 + lh + (int l + rh)) = ?E (lh + rh + 1 + lh + (int l + rh))))"
    for l and loc :: "int \<Rightarrow> 'a option"
  have "\<exists>loc. run_items (conv_local_load n lh rh x sw b lsize grp) [0..<b] (\<lambda>a. None) = Inr loc
          \<and> (\<forall>l<b. C l loc)"
  proof (rule run_items_invariant [where I = "\<lambda>i loc. \<forall>l<i. C l loc"])
    show "\<forall>l<0. C l (\<lambda>a. None)" by simp
  next
    fix i and loc :: "int \<Rightarrow> 'a option"
    assume i: "i < b" and inv: "\<forall>l<i. C l loc"
    from conv_local_load_step [OF assms(1,2) i assms(3), of n x sw grp loc]
    obtain loc' where s: "conv_local_load n lh rh x sw b lsize grp i loc = Inr loc'"
      "\<forall>a. loc a = ?E a \<longrightarrow> loc' a = ?E a" "C i loc'"
      unfolding C_def by blast
    have "C l loc'" if "l < i" for l
      using inv that s(2) unfolding C_def by blast
    with s(3) have "\<forall>l<Suc i. C l loc'" by (simp add: less_Suc_eq)
    with s(1) show "\<exists>loc'. conv_local_load n lh rh x sw b lsize grp i loc = Inr loc' \<and> (\<forall>l<Suc i. C l loc')"
      by blast
  qed
  then show ?thesis unfolding C_def by blast
qed

lemma staged_last:
  assumes "staged n b lh" "0 < grp" "grp * b < n" "lh \<le> int b"
  shows "lh \<le> int n - int (grp * b)"
proof (cases "b = 0")
  case True
  with assms(4) show ?thesis by simp
next
  case False
  then have bpos: "0 < b" by simp
  have gb: "b \<le> grp * b" using assms(2) by (cases grp) simp_all
  have nb: "\<not> n \<le> b" using gb assms(3) by linarith
  show ?thesis
  proof (cases "n mod b = 0")
    case True
    define q where "q = n div b"
    have "n = n div b * b + n mod b" by simp
    with True have q: "n = q * b" by (simp add: q_def)
    with assms(3) bpos have "grp < q" by simp
    then have "Suc grp \<le> q" by simp
    then have "Suc grp * b \<le> q * b" by (rule mult_le_mono1)
    with q have "grp * b + b \<le> n" by simp
    with assms(4) show ?thesis by linarith
  next
    case False
    with nb assms(1) have 3: "lh \<le> int (n mod b)" by (simp add: staged_def)
    have "grp \<le> n div b"
      using assms(3) bpos by (metis less_imp_le_nat div_le_mono div_mult_self_is_m)
    then have "grp * b \<le> n div b * b" by (rule mult_le_mono1)
    moreover have "n = n div b * b + n mod b" by simp
    ultimately have "grp * b + n mod b \<le> n" by linarith
    with 3 show ?thesis by linarith
  qed
qed

lemma lread_Some: "0 \<le> a \<Longrightarrow> a < int lsize \<Longrightarrow> loc a = Some v \<Longrightarrow> lread lsize loc a = Some v"
  by (simp add: lread_def)

lemma conv_local_sum_eq:
  assumes "0 \<le> lh" "0 \<le> rh" "int (length sw) = lh + rh + 1" "n = length x"
      and "lh + rh + 1 \<le> int b" "int b + 2 * (lh + rh) + 1 \<le> int lsize"
      and "staged n b lh" "l < b" "grp * b + l < n"
      and loc: "\<forall>l<b.
            (int l < lh + rh + 1 \<longrightarrow> loc (int l) = local_image lh rh x sw (grp * b) (int l))
          \<and> (grp * b + l < n \<longrightarrow>
               loc (lh + rh + 1 + lh + int l) = local_image lh rh x sw (grp * b) (lh + rh + 1 + lh + int l)
             \<and> (int l < lh \<and> lh \<le> int (grp * b + l) \<longrightarrow>
                  loc (lh + rh + 1 + lh + (int l - lh))
                    = local_image lh rh x sw (grp * b) (lh + rh + 1 + lh + (int l - lh)))
             \<and> (int l + rh < int b \<or> int (grp * b + l) + rh < int n \<longrightarrow>
                  loc (lh + rh + 1 + lh + (int l + rh))
                    = local_image lh rh x sw (grp * b) (lh + rh + 1 + lh + (int l + rh))))"
  shows "conv_local_sum n lh rh lsize loc (int (grp * b + l)) (int l)
           = Some (taps (\<lambda>j. 0 \<le> j \<and> j < int n) (\<lambda>j. x ! nat j) lh rh sw (int (grp * b + l)))"
  unfolding conv_local_sum_def taps_def
proof (rule fold_madd_upto, intro conjI)
  fix k assume k: "- lh \<le> k" "k \<le> rh"
    and p: "0 \<le> int (grp * b + l) + k \<and> int (grp * b + l) + k < int n"
  let ?E = "local_image lh rh x sw (grp * b)"
  show "lread lsize loc (lh + k) = Some (sw ! nat (lh + k))"
  proof (rule lread_Some)
    show "0 \<le> lh + k" using k by simp
    show "lh + k < int lsize" using k assms(1,2,6) by simp
    have "nat (lh + k) < b" using k assms(5) by simp
    with loc have "int (nat (lh + k)) < lh + rh + 1 \<longrightarrow> loc (int (nat (lh + k))) = ?E (int (nat (lh + k)))"
      by blast
    with k have "loc (lh + k) = ?E (lh + k)" by simp
    also have "\<dots> = Some (sw ! nat (lh + k))"
      using k assms(3) by (simp add: local_image_def gread_def)
    finally show "loc (lh + k) = Some (sw ! nat (lh + k))" .
  qed
  define j where "j = int l + k"
  define base where "base = grp * b"
  note loc' = loc [folded base_def]
  have jr: "- lh \<le> j" "j \<le> int b - 1 + rh" using k assms(8) by (simp_all add: j_def)
  have gj: "0 \<le> int base + j" "int base + j < int n" using p by (simp_all add: j_def base_def)
  have img: "?E (lh + rh + 1 + lh + j) = Some (x ! nat (int (grp * b + l) + k))"
    using jr gj assms(1,2,4) unfolding base_def [symmetric]
    by (simp add: local_image_def gread_def j_def algebra_simps)
  have "loc (lh + rh + 1 + lh + j) = ?E (lh + rh + 1 + lh + j)"
  proof -
    consider "0 \<le> j \<and> j < int b" | "int b \<le> j" | "j < 0" by linarith
    then show ?thesis
    proof cases
      case 1
      then have a: "nat j < b" "base + nat j < n" using gj by linarith+
      with loc' have "loc (lh + rh + 1 + lh + int (nat j)) = local_image lh rh x sw base (lh + rh + 1 + lh + int (nat j))"
        by blast
      with 1 show ?thesis by (simp add: base_def)
    next
      case 2
      define l' where "l' = nat (j - rh)"
      have l': "int l' = j - rh" using 2 assms(1,2,5) by (simp add: l'_def)
      have a: "l' < b" "base + l' < n" "int (base + l') + rh < int n"
        using l' jr gj assms(2) by simp_all
      with loc' have "loc (lh + rh + 1 + lh + (int l' + rh)) = local_image lh rh x sw base (lh + rh + 1 + lh + (int l' + rh))"
        by blast
      then show ?thesis by (simp add: l' base_def)
    next
      case 3
      define l' where "l' = nat (j + lh)"
      have l': "int l' = j + lh" using jr by (simp add: l'_def)
      have gpos: "0 < grp" using 3 gj by (cases grp) (simp_all add: base_def)
      have gn: "grp * b < n" using assms(9) by simp
      have gb: "b \<le> base" using gpos by (cases grp) (simp_all add: base_def)
      have lb: "lh \<le> int b" using assms(2,5) by simp
      from staged_last [OF assms(7) gpos gn lb] have room: "lh \<le> int n - int base"
        by (simp add: base_def)
      have a: "l' < b" "base + l' < n" "int l' < lh" "lh \<le> int (base + l')"
        using l' 3 lb room gb by simp_all
      with loc' have "loc (lh + rh + 1 + lh + (int l' - lh)) = local_image lh rh x sw base (lh + rh + 1 + lh + (int l' - lh))"
        by blast
      then show ?thesis by (simp add: l' base_def)
    qed
  qed
  with img have v: "loc (lh + rh + 1 + lh + (int l + k)) = Some (x ! nat (int (grp * b + l) + k))"
    by (simp add: j_def)
  show "lread lsize loc (lh + rh + 1 + lh + (int l + k)) = Some (x ! nat (int (grp * b + l) + k))"
  proof (rule lread_Some)
    show "0 \<le> lh + rh + 1 + lh + (int l + k)" using k assms(1,2) by simp
    show "lh + rh + 1 + lh + (int l + k) < int lsize" using k assms(6,8) by simp
    show "loc (lh + rh + 1 + lh + (int l + k)) = Some (x ! nat (int (grp * b + l) + k))" by (rule v)
  qed
qed

lemma alignup_groups:
  assumes "0 < b"
  shows "alignup n b div b = (n + b - 1) div b" and "n \<le> (n + b - 1) div b * b"
proof -
  show "alignup n b div b = (n + b - 1) div b"
    using assms by (simp add: alignup_def)
  have "n + b - 1 = (n + b - 1) div b * b + (n + b - 1) mod b" by simp
  moreover have "(n + b - 1) mod b < b" using assms by simp
  ultimately show "n \<le> (n + b - 1) div b * b" by linarith
qed

lemma conv_local_group_spec:
  fixes y :: "'a::comm_ring_1 list"
  assumes "0 \<le> lh" "0 \<le> rh" "int (length sw) = lh + rh + 1" "n = length x"
      and "lh + rh + 1 \<le> int b" "int b + 2 * (lh + rh) + 1 \<le> int lsize"
      and "staged n b lh"
      and "length y1 = n"
      and "\<forall>i<n. y1 ! i = (if i < grp * b then new i else y ! i)"
      and new: "\<And>i. new i = (if alpha \<noteq> 0 then alpha * y ! i else 0)
                 + beta * taps (\<lambda>j. 0 \<le> j \<and> j < int n) (\<lambda>j. x ! nat j) lh rh sw (int i)"
  shows "\<exists>y2. conv_local_group n lh rh x sw alpha beta b lsize grp y1 = Inr y2 \<and> length y2 = n
           \<and> (\<forall>i<n. y2 ! i = (if i < Suc grp * b then new i else y ! i))"
proof -
  from conv_local_stage [OF assms(1,2,6), of n x sw grp] obtain loc where
    st: "run_items (conv_local_load n lh rh x sw b lsize grp) [0..<b] (\<lambda>a. None) = Inr loc"
    and loc: "\<forall>l<b.
            (int l < lh + rh + 1 \<longrightarrow> loc (int l) = local_image lh rh x sw (grp * b) (int l))
          \<and> (grp * b + l < n \<longrightarrow>
               loc (lh + rh + 1 + lh + int l) = local_image lh rh x sw (grp * b) (lh + rh + 1 + lh + int l)
             \<and> (int l < lh \<and> lh \<le> int (grp * b + l) \<longrightarrow>
                  loc (lh + rh + 1 + lh + (int l - lh))
                    = local_image lh rh x sw (grp * b) (lh + rh + 1 + lh + (int l - lh)))
             \<and> (int l + rh < int b \<or> int (grp * b + l) + rh < int n \<longrightarrow>
                  loc (lh + rh + 1 + lh + (int l + rh))
                    = local_image lh rh x sw (grp * b) (lh + rh + 1 + lh + (int l + rh))))"
    by blast
  define J where "J l y2 \<longleftrightarrow> length y2 = n \<and> (\<forall>i<n. y2 ! i = (if i < grp * b + l then new i else y ! i))"
    for l and y2 :: "'a list"
  have "\<exists>y2. run_items (conv_local_compute n lh rh alpha beta b lsize loc grp) [0..<b] y1 = Inr y2 \<and> J b y2"
  proof (rule run_items_invariant)
    show "J 0 y1" using assms(8,9) by (simp add: J_def)
  next
    fix l y2 assume l: "l < b" and j: "J l y2"
    show "\<exists>y3. conv_local_compute n lh rh alpha beta b lsize loc grp l y2 = Inr y3 \<and> J (Suc l) y3"
    proof (cases "grp * b + l < n")
      case True
      with j have len: "grp * b + l < length y2" and yl: "y2 ! (grp * b + l) = y ! (grp * b + l)"
        by (simp_all add: J_def)
      note sm = conv_local_sum_eq [OF assms(1-7) l True loc]
      have "conv_local_compute n lh rh alpha beta b lsize loc grp l y2
              = blend_store y2 (int (grp * b + l)) alpha beta
                  (Some (taps (\<lambda>j. 0 \<le> j \<and> j < int n) (\<lambda>j. x ! nat j) lh rh sw (int (grp * b + l))))"
        using True by (simp only: conv_local_compute_def sm if_True)
      also have "\<dots> = Inr (y2[grp * b + l := new (grp * b + l)])"
        by (simp only: blend_store_Some [OF len] yl new)
      finally have "conv_local_compute n lh rh alpha beta b lsize loc grp l y2
              = Inr (y2[grp * b + l := new (grp * b + l)])" .
      moreover have "J (Suc l) (y2[grp * b + l := new (grp * b + l)])"
        using j by (auto simp add: J_def nth_list_update less_Suc_eq)
      ultimately show ?thesis by blast
    next
      case False
      then have "conv_local_compute n lh rh alpha beta b lsize loc grp l y2 = Inr y2"
        by (simp add: conv_local_compute_def)
      moreover from False j have "J (Suc l) y2" by (auto simp add: J_def)
      ultimately show ?thesis by blast
    qed
  qed
  then obtain y2 where "run_items (conv_local_compute n lh rh alpha beta b lsize loc grp) [0..<b] y1 = Inr y2"
    "J b y2" by blast
  with st show ?thesis by (simp add: conv_local_group_def J_def)
qed

lemma launch_conv_local_spec:
  fixes y :: "'a::comm_ring_1 list"
  assumes "0 \<le> lh" "0 \<le> rh" "int (length sw) = lh + rh + 1" "n = length x"
      and "lh + rh + 1 \<le> int b" "int b + 2 * (lh + rh) + 1 \<le> int lsize"
      and "staged n b lh" "length y = n"
  shows "\<exists>y'. launch_conv_local n lh rh x sw alpha beta (alignup n b) b lsize y = Inr y' \<and> length y' = n
           \<and> (\<forall>i<n. y' ! i = (if alpha \<noteq> 0 then alpha * y ! i else 0)
                 + beta * taps (\<lambda>j. 0 \<le> j \<and> j < int n) (\<lambda>j. x ! nat j) lh rh sw (int i))"
proof -
  define new where "new i = (if alpha \<noteq> 0 then alpha * y ! i else 0)
                 + beta * taps (\<lambda>j. 0 \<le> j \<and> j < int n) (\<lambda>j. x ! nat j) lh rh sw (int i)" for i
  define I where "I grp y' \<longleftrightarrow> length y' = n \<and> (\<forall>i<n. y' ! i = (if i < grp * b then new i else y ! i))"
    for grp and y' :: "'a list"
  have bpos: "0 < b" using assms(1,2,5) by simp
  let ?G = "(n + b - 1) div b"
  have "\<exists>y'. run_items (conv_local_group n lh rh x sw alpha beta b lsize) [0..<?G] y = Inr y' \<and> I ?G y'"
  proof (rule run_items_invariant)
    show "I 0 y" using assms(8) by (simp add: I_def)
  next
    fix grp y1 assume "I grp y1"
    then have "length y1 = n" "\<forall>i<n. y1 ! i = (if i < grp * b then new i else y ! i)"
      by (simp_all add: I_def)
    from conv_local_group_spec [OF assms(1-7) this new_def]
    show "\<exists>y2. conv_local_group n lh rh x sw alpha beta b lsize grp y1 = Inr y2 \<and> I (Suc grp) y2"
      by (simp add: I_def)
  qed
  then obtain y' where "run_items (conv_local_group n lh rh x sw alpha beta b lsize) [0..<?G] y = Inr y'"
    "I ?G y'" by blast
  with alignup_groups [OF bpos, of n] show ?thesis
    by (auto simp add: launch_conv_local_def I_def new_def)
qed

lemma add_store_Some:
  assumes "i < length y"
  shows "add_store y (int i) beta (Some v) = Inr (y[i := y ! i + beta * v])"
  using assms by (simp add: add_store_def gread_def gwrite_def)

lemma conv_remote_left_eq:
  assumes "0 \<le> lh" "0 \<le> rh" "int (length sw) = lh + rh + 1" "0 \<le> g"
      and "\<And>p. - lh \<le> p \<Longrightarrow> p < 0 \<Longrightarrow> (if has_left then hread h (lh + p) else gread x 0) = Some (f p)"
  shows "conv_remote_left has_left lh x h sw g = Some (taps (\<lambda>j. j < 0) f lh rh sw g)"
proof -
  have "conv_remote_left has_left lh x h sw g
          = Some (\<Sum>k = - lh..- 1. if g + k < 0 then sw ! nat (lh + k) * f (g + k) else 0)"
    unfolding conv_remote_left_def
    by (rule fold_madd_upto) (use assms in \<open>auto simp add: gread_def\<close>)
  also have "(\<Sum>k = - lh..- 1. if g + k < 0 then sw ! nat (lh + k) * f (g + k) else 0)
          = (\<Sum>k = - lh..rh. if g + k < 0 then sw ! nat (lh + k) * f (g + k) else 0)"
    by (rule sum.mono_neutral_left) (use assms in auto)
  finally show ?thesis by (simp add: taps_def)
qed

lemma conv_remote_right_eq:
  assumes "0 \<le> lh" "0 \<le> rh" "int (length sw) = lh + rh + 1" "0 \<le> g" "g < rh" "rh \<le> int n"
      and "\<And>p. int n \<le> p \<Longrightarrow> p < int n + rh
              \<Longrightarrow> (if has_right then hread h (lh + (p - int n)) else gread x (int n - 1)) = Some (f p)"
  shows "conv_remote_right n has_right lh rh x h sw g
           = Some (taps (\<lambda>j. int n \<le> j) f lh rh sw (int n - rh + g))"
proof -
  have "conv_remote_right n has_right lh rh x h sw g
          = Some (\<Sum>k = 1..rh. if g + k - rh \<ge> 0 then sw ! nat (lh + k) * f (int n - rh + g + k) else 0)"
    unfolding conv_remote_right_def
  proof (rule fold_madd_upto, intro conjI)
    fix k assume k: "1 \<le> k" "k \<le> rh" "0 \<le> g + k - rh"
    show "gread sw (lh + k) = Some (sw ! nat (lh + k))"
      using k assms(1,3) by (simp add: gread_def)
    have "(if has_right then hread h (lh + ((int n - rh + g + k) - int n)) else gread x (int n - 1))
            = Some (f (int n - rh + g + k))"
      by (rule assms(7)) (use k assms(5) in simp_all)
    moreover have "lh + ((int n - rh + g + k) - int n) = lh + (g + k - rh)" by simp
    ultimately show "(if has_right then hread h (lh + (g + k - rh)) else gread x (int n - 1))
            = Some (f (int n - rh + g + k))"
      by (simp only:)
  qed
  also have "(\<Sum>k = 1..rh. if g + k - rh \<ge> 0 then sw ! nat (lh + k) * f (int n - rh + g + k) else 0)
          = (\<Sum>k = - lh..rh. if int n \<le> int n - rh + g + k then sw ! nat (lh + k) * f (int n - rh + g + k) else 0)"
    by (rule sum.mono_neutral_cong_left) (use assms in auto)
  finally show ?thesis by (simp add: taps_def)
qed

lemma taps_none:
  assumes "\<And>k. - lh \<le> k \<Longrightarrow> k \<le> rh \<Longrightarrow> \<not> P (i + k)"
  shows "taps P f lh rh sw i = 0"
  unfolding taps_def by (rule sum.neutral) (use assms in auto)

lemma add_store_by_free:
  assumes "i < length y" "own (int i) = None"
  shows "add_store_by g (y, own) (int i) beta (Some v) = Inr (y[i := y ! i + beta * v], own(int i \<mapsto> g))"
  using assms by (simp add: add_store_by_def add_store_Some)

text \<open>
  In a partition that holds both halos side by side no two work-items of the boundary
  kernel update the same element, and the launch adds the taps outside the partition.
\<close>

lemma launch_conv_remote_spec:
  fixes y :: "'a::comm_ring_1 list"
  assumes "0 \<le> lh" "0 \<le> rh" "int (length sw) = lh + rh + 1" "length y = n"
      and "lh + rh \<le> int n"
      and fl: "\<And>p. - lh \<le> p \<Longrightarrow> p < 0 \<Longrightarrow> (if has_left then hread h (lh + p) else gread x 0) = Some (f p)"
      and fr: "\<And>p. int n \<le> p \<Longrightarrow> p < int n + rh
              \<Longrightarrow> (if has_right then hread h (lh + (p - int n)) else gread x (int n - 1)) = Some (f p)"
  shows "\<exists>y'. launch_conv_remote n has_left has_right lh rh x h sw beta (nat (max lh rh)) y = Inr y'
           \<and> length y' = n
           \<and> (\<forall>i<n. y' ! i = y ! i + beta * taps (\<lambda>j. j < 0) f lh rh sw (int i)
                               + beta * taps (\<lambda>j. int n \<le> j) f lh rh sw (int i))"
proof -
  have ln: "lh \<le> int n" and rn: "rh \<le> int n" using assms(1,2,5) by linarith+
  define Lv where "Lv i = beta * taps (\<lambda>j. j < 0) f lh rh sw (int i)" for i
  define Rv where "Rv i = beta * taps (\<lambda>j. int n \<le> j) f lh rh sw (int i)" for i
  define I where "I m y' \<longleftrightarrow> length y' = n
      \<and> (\<forall>i<n. y' ! i = y ! i + (if int i < lh \<and> i < m then Lv i else 0)
                            + (if int n - rh \<le> int i \<and> int i - (int n - rh) < int m then Rv i else 0))"
    for m and y' :: "'a list"
  define W where "W m own \<longleftrightarrow>
      (\<forall>i g. own i = Some g \<longrightarrow> g < m \<and> (i = int g \<and> int g < lh \<or> i = int n - rh + int g \<and> int g < rh))"
    for m :: nat and own :: "int \<rightharpoonup> nat"
  define J where "J m yo \<longleftrightarrow> I m (fst yo) \<and> W m (snd yo)" for m and yo :: "'a list \<times> (int \<rightharpoonup> nat)"
  have "\<exists>yo. run_items (conv_remote_item n has_left has_right lh rh x h sw beta) [0..<nat (max lh rh)]
                (y, Map.empty) = Inr yo
          \<and> J (nat (max lh rh)) yo"
  proof (rule run_items_invariant)
    show "J 0 (y, Map.empty)" using assms(4) by (auto simp add: J_def I_def W_def)
  next
    fix m and yo :: "'a list \<times> (int \<rightharpoonup> nat)"
    assume m: "m < nat (max lh rh)" and jinv: "J m yo"
    obtain y1 own where yo: "yo = (y1, own)" by (cases yo)
    from jinv have inv: "I m y1" and winv: "W m own" by (simp_all add: J_def yo)
    from inv have len: "length y1 = n" by (simp add: I_def)
    define y2 where "y2 = (if int m < lh then y1[m := y1 ! m + Lv m] else y1)"
    define own2 where "own2 = (if int m < lh then own(int m \<mapsto> m) else own)"
    define q where "q = nat (int n - rh + int m)"
    define y3 where "y3 = (if int m < rh then y2[q := y2 ! q + Rv q] else y2)"
    define own3 where "own3 = (if int m < rh then own2(int q \<mapsto> m) else own2)"
    have len2: "length y2 = n" using len by (simp add: y2_def)
    have free1: "own (int m) = None" if "int m < lh"
    proof (cases "own (int m)")
      case None
      then show ?thesis .
    next
      case (Some g)
      with winv have "g < m \<and> (int m = int g \<and> int g < lh \<or> int m = int n - rh + int g \<and> int g < rh)"
        unfolding W_def by blast
      with that assms(5) show ?thesis by linarith
    qed
    have s1: "(if int m < lh
               then add_store_by m (y1, own) (int m) beta (conv_remote_left has_left lh x h sw (int m))
               else Inr (y1, own)) = Inr (y2, own2)"
    proof (cases "int m < lh")
      case True
      with ln len have "m < length y1" by simp
      with True free1 show ?thesis
        by (simp add: conv_remote_left_eq [OF assms(1,2,3) _ fl] add_store_by_free y2_def own2_def Lv_def)
    next
      case False
      then show ?thesis by (simp add: y2_def own2_def)
    qed
    have qi: "int q = int n - rh + int m" if "int m < rh" using rn that by (simp add: q_def)
    have free2: "own2 (int q) = None" if mr: "int m < rh"
    proof (cases "own2 (int q)")
      case None
      then show ?thesis .
    next
      case (Some g)
      show ?thesis
      proof (cases "int m < lh \<and> int q = int m")
        case True
        with qi [OF mr] assms(1,5) show ?thesis by linarith
      next
        case False
        with Some have "own (int q) = Some g" by (auto simp add: own2_def split: if_splits)
        with winv have "g < m \<and> (int q = int g \<and> int g < lh \<or> int q = int n - rh + int g \<and> int g < rh)"
          unfolding W_def by blast
        with qi [OF mr] assms(5) show ?thesis by linarith
      qed
    qed
    have s2: "(if int m < rh
               then add_store_by m (y2, own2) (int n - rh + int m) beta
                      (conv_remote_right n has_right lh rh x h sw (int m))
               else Inr (y2, own2)) = Inr (y3, own3)"
    proof (cases "int m < rh")
      case True
      have ql: "q < length y2" using len2 qi [OF True] True by linarith
      have "conv_remote_right n has_right lh rh x h sw (int m)
              = Some (taps (\<lambda>j. int n \<le> j) f lh rh sw (int n - rh + int m))"
        by (rule conv_remote_right_eq [OF assms(1,2,3) _ True rn fr]) simp_all
      with True ql free2 [OF True] show ?thesis
        by (simp add: qi [OF True, symmetric] add_store_by_free y3_def own3_def Rv_def)
    next
      case False
      then show ?thesis by (simp add: y3_def own3_def)
    qed
    have "conv_remote_item n has_left has_right lh rh x h sw beta m yo = Inr (y3, own3)"
      unfolding conv_remote_item_def yo by (simp only: s1 s2 bindE_Inr)
    moreover have "I (Suc m) y3"
      unfolding I_def
    proof (intro conjI allI impI)
      show "length y3 = n" using len2 by (simp add: y3_def)
    next
      fix i assume i: "i < n"
      from inv i have y1i: "y1 ! i = y ! i + (if int i < lh \<and> i < m then Lv i else 0)
                            + (if int n - rh \<le> int i \<and> int i - (int n - rh) < int m then Rv i else 0)"
        by (simp add: I_def)
      have y2i: "y2 ! i = y1 ! i + (if int i < lh \<and> i = m then Lv i else 0)"
        using i len by (auto simp add: y2_def nth_list_update)
      have qm: "int m < rh \<Longrightarrow> (i = q) = (int i - (int n - rh) = int m)"
        using rn by (auto simp add: q_def)
      have y3i: "y3 ! i = y2 ! i + (if int m < rh \<and> int i - (int n - rh) = int m then Rv i else 0)"
        using i len2 qm by (auto simp add: y3_def nth_list_update)
      have a: "(if int i < lh \<and> i < m then Lv i else 0) + (if int i < lh \<and> i = m then Lv i else 0)
                 = (if int i < lh \<and> i < Suc m then Lv i else 0)"
        by (auto simp add: less_Suc_eq)
      have b: "(if int n - rh \<le> int i \<and> int i - (int n - rh) < int m then Rv i else 0)
                + (if int m < rh \<and> int i - (int n - rh) = int m then Rv i else 0)
                 = (if int n - rh \<le> int i \<and> int i - (int n - rh) < int (Suc m) then Rv i else 0)"
        using i by auto
      show "y3 ! i = y ! i + (if int i < lh \<and> i < Suc m then Lv i else 0)
                            + (if int n - rh \<le> int i \<and> int i - (int n - rh) < int (Suc m) then Rv i else 0)"
        unfolding y3i y2i y1i a [symmetric] b [symmetric] by (simp add: algebra_simps)
    qed
    moreover have "W (Suc m) own3"
      unfolding W_def
    proof (intro allI impI)
      fix i g assume o: "own3 i = Some g"
      show "g < Suc m \<and> (i = int g \<and> int g < lh \<or> i = int n - rh + int g \<and> int g < rh)"
      proof (cases "int m < rh \<and> i = int q")
        case True
        with o have "g = m" by (simp add: own3_def)
        with True qi show ?thesis by simp
      next
        case False
        with o have o2: "own2 i = Some g" by (auto simp add: own3_def split: if_splits)
        show ?thesis
        proof (cases "int m < lh \<and> i = int m")
          case True
          with o2 have "g = m" by (simp add: own2_def)
          with True show ?thesis by simp
        next
          case False
          with o2 have "own i = Some g" by (auto simp add: own2_def split: if_splits)
          with winv show ?thesis by (auto simp add: W_def less_Suc_eq)
        qed
      qed
    qed
    ultimately show "\<exists>yo'. conv_remote_item n has_left has_right lh rh x h sw beta m yo = Inr yo' \<and> J (Suc m) yo'"
      by (auto simp add: J_def)
  qed
  then obtain y' where r: "launch_conv_remote n has_left has_right lh rh x h sw beta (nat (max lh rh)) y = Inr y'"
    and fin: "I (nat (max lh rh)) y'"
    by (auto simp add: launch_conv_remote_def J_def)
  have "y' ! i = y ! i + Lv i + Rv i" if i: "i < n" for i
  proof -
    have l: "(if int i < lh \<and> i < nat (max lh rh) then Lv i else 0) = Lv i"
    proof (cases "int i < lh")
      case True
      then show ?thesis by auto
    next
      case False
      then have "taps (\<lambda>j. j < 0) f lh rh sw (int i) = 0"
        by (intro taps_none) auto
      with False show ?thesis by (simp add: Lv_def)
    qed
    have r: "(if int n - rh \<le> int i \<and> int i - (int n - rh) < int (nat (max lh rh)) then Rv i else 0) = Rv i"
    proof (cases "int n - rh \<le> int i")
      case True
      with i assms(2) show ?thesis by auto
    next
      case False
      then have "taps (\<lambda>j. int n \<le> j) f lh rh sw (int i) = 0"
        by (intro taps_none) auto
      with False show ?thesis by (simp add: Rv_def)
    qed
    from fin i l r show ?thesis by (simp add: I_def)
  qed
  with r fin show ?thesis by (auto simp add: I_def Lv_def Rv_def)
qed

lemma run_items_post:
  assumes "run_items f [0..<m] st0 = Inr st'" and "I 0 st0"
      and "\<And>i st st1. i < m \<Longrightarrow> I i st \<Longrightarrow> f i st = Inr st1 \<Longrightarrow> I (Suc i) st1"
  shows "I m st'"
  using assms(1,3)
proof (induction m arbitrary: st')
  case 0
  with assms(2) show ?case by simp
next
  case (Suc m)
  from Suc.prems(1) obtain st1 where a: "run_items f [0..<m] st0 = Inr st1" "f m st1 = Inr st'"
    by (auto simp add: run_items_append bindE_eq_Inr)
  have "I m st1" by (rule Suc.IH [OF a(1)]) (use Suc.prems(2) in auto)
  with a(2) Suc.prems(2) [of m st1 st'] show ?case by simp
qed

lemma splice_nth:
  assumes "pos + length vals \<le> length hb" "p < length hb"
  shows "(take pos hb @ vals @ drop (pos + length vals) hb) ! p
           = (if pos \<le> p \<and> p < pos + length vals then vals ! (p - pos) else hb ! p)"
  using assms by (auto simp add: nth_append min_def)

lemma host_store_nat:
  "host_store hb (int pos) vals =
     (if pos + length vals \<le> length hb then Inr (take pos hb @ vals @ drop (pos + length vals) hb)
      else Inl OutOfBounds)"
  by (auto simp add: host_store_def)

lemma host_load_nat:
  "host_load hb (int pos) (int cnt) =
     (if pos + cnt \<le> length hb then Inr (take cnt (drop pos hb)) else Inl OutOfBounds)"
  by (auto simp add: host_load_def)

lemma enqueueReadBuffer_nat:
  "enqueueReadBuffer buf (int off) (int cnt) =
     (if off + cnt \<le> length buf then Inr (take cnt (drop off buf)) else Inl DeviceError)"
  by (auto simp add: enqueueReadBuffer_def)

lemma enqueueWriteBuffer_nat:
  "enqueueWriteBuffer buf (int off) vals =
     (if off + length vals \<le> length buf then Inr (take off buf @ vals @ drop (off + length vals) buf)
      else Inl DeviceError)"
  by (auto simp add: enqueueWriteBuffer_def)


lemma enqueueReadBuffer_head:
  "enqueueReadBuffer buf 0 (int r) = (if r \<le> length buf then Inr (take r buf) else Inl DeviceError)"
  by (simp add: enqueueReadBuffer_def)

lemma enqueueReadBuffer_tail:
  "enqueueReadBuffer buf (int (length buf) - int l) (int l)
     = (if l \<le> length buf then Inr (drop (length buf - l) buf) else Inl DeviceError)"
  by (auto simp add: enqueueReadBuffer_def nat_diff_distrib)

text \<open>The reads of device d, with offsets and positions as natural numbers\<close>

lemma read_halos_nat:
  "read_halos nq (int l) (int r) x d hb =
     bindE (if d > 0 \<and> r > 0
            then (if r \<le> length (x ! d) then host_store hb (int (d * (r + l))) (take r (x ! d))
                  else Inl DeviceError)
            else Inr hb)
       (\<lambda>hb1. if d + 1 < nq \<and> l > 0
               then (if l \<le> length (x ! d)
                     then host_store hb1 (int (d * (r + l) + r)) (drop (length (x ! d) - l) (x ! d))
                     else Inl DeviceError)
               else Inr hb1)"
proof -
  have 1: "int d * (int r + int l) = int (d * (r + l))" by simp
  have 2: "int (d * (r + l)) + int r = int (d * (r + l) + r)" by simp
  have 3: "bindE (if c then Inr v else Inl e) f = (if c then f v else Inl e)" for c v e
    and f :: "'a list \<Rightarrow> error + 'a list"
    by simp
  have 4: "(0 < int r) = (0 < r)" "(0 < int l) = (0 < l)" by simp_all
  show ?thesis
    unfolding read_halos_def
    by (simp only: 1 2 3 4 enqueueReadBuffer_head enqueueReadBuffer_tail)
qed

lemma host_store_post:
  assumes "host_store hb (int pos) vals = Inr hb'"
  shows "pos + length vals \<le> length hb \<and> length hb' = length hb
       \<and> (\<forall>p<length hb. hb' ! p = (if pos \<le> p \<and> p < pos + length vals then vals ! (p - pos) else hb ! p))"
proof -
  from assms have b: "pos + length vals \<le> length hb"
    and e: "hb' = take pos hb @ vals @ drop (pos + length vals) hb"
    by (auto simp add: host_store_nat split: if_splits)
  from b e have "length hb' = length hb" by simp
  with b e splice_nth [OF b] show ?thesis by simp
qed

lemma block_bounds:
  assumes "d < (nq::nat)"
  shows "d * w + w \<le> nq * w"
proof -
  from assms have "Suc d \<le> nq" by simp
  then have "Suc d * w \<le> nq * w" by (rule mult_le_mono1)
  then show ?thesis by simp
qed

lemma read_halos_post:
  assumes "read_halos nq (int l) (int r) x d hb = Inr hb'" "length hb = nq * (r + l)" "d < nq"
  shows "length hb' = length hb
       \<and> (\<forall>p<length hb. p < d * (r + l) \<or> d * (r + l) + (r + l) \<le> p \<longrightarrow> hb' ! p = hb ! p)
       \<and> (0 < d \<and> 0 < r \<longrightarrow> r \<le> length (x ! d) \<and> (\<forall>j<r. hb' ! (d * (r + l) + j) = x ! d ! j))
       \<and> (d + 1 < nq \<and> 0 < l \<longrightarrow> l \<le> length (x ! d)
             \<and> (\<forall>j<l. hb' ! (d * (r + l) + r + j) = x ! d ! (length (x ! d) - l + j)))"
proof -
  define base where "base = d * (r + l)"
  have room: "base + (r + l) \<le> length hb"
    using block_bounds [OF assms(3), of "r + l"] assms(2) by (simp add: base_def)
  from assms(1) obtain hb1 where
    1: "(if d > 0 \<and> r > 0
         then (if r \<le> length (x ! d) then host_store hb (int base) (take r (x ! d)) else Inl DeviceError)
         else Inr hb) = Inr hb1"
    and 2: "(if d + 1 < nq \<and> l > 0
             then (if l \<le> length (x ! d)
                   then host_store hb1 (int (base + r)) (drop (length (x ! d) - l) (x ! d))
                   else Inl DeviceError)
             else Inr hb1) = Inr hb'"
    unfolding base_def by (auto simp add: read_halos_nat bindE_eq_Inr)
  have p1: "length hb1 = length hb
       \<and> (\<forall>p<length hb. p < base \<or> base + r \<le> p \<longrightarrow> hb1 ! p = hb ! p)
       \<and> (0 < d \<and> 0 < r \<longrightarrow> r \<le> length (x ! d) \<and> (\<forall>j<r. hb1 ! (base + j) = x ! d ! j))"
  proof (cases "d > 0 \<and> r > 0")
    case True
    with 1 have le: "r \<le> length (x ! d)" and st: "host_store hb (int base) (take r (x ! d)) = Inr hb1"
      by (auto split: if_splits)
    from host_store_post [OF st] le room True show ?thesis by (auto simp add: min_def)
  next
    case False
    with 1 show ?thesis by auto
  qed
  have p2: "length hb' = length hb1
       \<and> (\<forall>p<length hb1. p < base + r \<or> base + r + l \<le> p \<longrightarrow> hb' ! p = hb1 ! p)
       \<and> (d + 1 < nq \<and> 0 < l \<longrightarrow> l \<le> length (x ! d)
             \<and> (\<forall>j<l. hb' ! (base + r + j) = x ! d ! (length (x ! d) - l + j)))"
  proof (cases "d + 1 < nq \<and> l > 0")
    case True
    with 2 have le: "l \<le> length (x ! d)"
      and st: "host_store hb1 (int (base + r)) (drop (length (x ! d) - l) (x ! d)) = Inr hb'"
      by (auto split: if_splits)
    from host_store_post [OF st] le room p1 True show ?thesis by auto
  next
    case False
    with 2 show ?thesis by auto
  qed
  have a: "length hb' = length hb" using p1 p2 by simp
  have b: "hb' ! p = hb ! p" if "p < length hb" "p < base \<or> base + (r + l) \<le> p" for p
    using p1 p2 that by auto
  have c: "0 < d \<and> 0 < r \<longrightarrow> r \<le> length (x ! d) \<and> (\<forall>j<r. hb' ! (base + j) = x ! d ! j)"
    using p1 p2 room by auto
  from a b c p2 show ?thesis unfolding base_def by blast
qed

lemma read_halos_ok:
  assumes "length hb = nq * (r + l)" "d < nq"
      and "0 < d \<and> 0 < r \<longrightarrow> r \<le> length (x ! d)"
      and "d + 1 < nq \<and> 0 < l \<longrightarrow> l \<le> length (x ! d)"
  shows "\<exists>hb'. read_halos nq (int l) (int r) x d hb = Inr hb'"
proof -
  define base where "base = d * (r + l)"
  have room: "base + (r + l) \<le> length hb"
    using block_bounds [OF assms(2), of "r + l"] assms(1) by (simp add: base_def)
  have "\<exists>hb1. (if d > 0 \<and> r > 0
         then (if r \<le> length (x ! d) then host_store hb (int base) (take r (x ! d)) else Inl DeviceError)
         else Inr hb) = Inr hb1 \<and> length hb1 = length hb"
  proof (cases "d > 0 \<and> r > 0")
    case True
    with assms(3) have le: "r \<le> length (x ! d)" by simp
    then have "length (take r (x ! d)) = r" by simp
    with room le True show ?thesis by (simp add: host_store_nat)
  next
    case False
    then show ?thesis by auto
  qed
  then obtain hb1 where
    1: "(if d > 0 \<and> r > 0
         then (if r \<le> length (x ! d) then host_store hb (int base) (take r (x ! d)) else Inl DeviceError)
         else Inr hb) = Inr hb1" and l1: "length hb1 = length hb" by blast
  have "\<exists>hb2. (if d + 1 < nq \<and> l > 0
             then (if l \<le> length (x ! d)
                   then host_store hb1 (int (base + r)) (drop (length (x ! d) - l) (x ! d))
                   else Inl DeviceError)
             else Inr hb1) = Inr hb2"
  proof (cases "d + 1 < nq \<and> l > 0")
    case True
    with assms(4) have le: "l \<le> length (x ! d)" by simp
    then have "length (drop (length (x ! d) - l) (x ! d)) = l" by simp
    with room le True l1 show ?thesis by (simp add: host_store_nat del: of_nat_add)
  next
    case False
    then show ?thesis by auto
  qed
  then obtain hb2 where
    2: "(if d + 1 < nq \<and> l > 0
             then (if l \<le> length (x ! d)
                   then host_store hb1 (int (base + r)) (drop (length (x ! d) - l) (x ! d))
                   else Inl DeviceError)
             else Inr hb1) = Inr hb2"
    by blast
  from 1 2 show ?thesis unfolding base_def by (auto simp add: read_halos_nat)
qed

text \<open>The staging buffer after the loop over the devices\<close>

lemma read_all_post:
  assumes "run_items (read_halos nq (int l) (int r) x) [0..<nq] hb0 = Inr hb" "length hb0 = nq * (r + l)"
  shows "length hb = nq * (r + l)
       \<and> (\<forall>d<nq. (0 < d \<and> 0 < r \<longrightarrow> r \<le> length (x ! d) \<and> (\<forall>j<r. hb ! (d * (r + l) + j) = x ! d ! j))
                \<and> (d + 1 < nq \<and> 0 < l \<longrightarrow> l \<le> length (x ! d)
                      \<and> (\<forall>j<l. hb ! (d * (r + l) + r + j) = x ! d ! (length (x ! d) - l + j))))"
proof -
  define S where "S d hb \<longleftrightarrow>
        (0 < d \<and> 0 < r \<longrightarrow> r \<le> length (x ! d) \<and> (\<forall>j<r. hb ! (d * (r + l) + j) = x ! d ! j))
      \<and> (d + 1 < nq \<and> 0 < l \<longrightarrow> l \<le> length (x ! d)
            \<and> (\<forall>j<l. hb ! (d * (r + l) + r + j) = x ! d ! (length (x ! d) - l + j)))"
    for d and hb :: "'a list"
  define I where "I i hb \<longleftrightarrow> length hb = nq * (r + l) \<and> (\<forall>d<i. S d hb)" for i and hb :: "'a list"
  have "I nq hb"
  proof (rule run_items_post [OF assms(1)])
    show "I 0 hb0" using assms(2) by (simp add: I_def)
  next
    fix i hb1 hb2
    assume i: "i < nq" and inv: "I i hb1" and step: "read_halos nq (int l) (int r) x i hb1 = Inr hb2"
    from inv have len: "length hb1 = nq * (r + l)" by (simp add: I_def)
    note post = read_halos_post [OF step len i]
    have new: "S i hb2" using post by (simp add: S_def)
    have old: "S d hb2" if d: "d < i" for d
    proof -
      from d have "Suc d \<le> i" by simp
      then have "Suc d * (r + l) \<le> i * (r + l)" by (rule mult_le_mono1)
      then have lt: "d * (r + l) + (r + l) \<le> i * (r + l)" by simp
      have top: "i * (r + l) + (r + l) \<le> length hb1"
        using block_bounds [OF i, of "r + l"] len by simp
      have keep: "hb2 ! p = hb1 ! p" if "p < d * (r + l) + (r + l)" for p
        using post that lt top by auto
      from inv d have "S d hb1" by (simp add: I_def)
      then show ?thesis unfolding S_def using keep by auto
    qed
    from post len new old show "I (Suc i) hb2" by (auto simp add: I_def less_Suc_eq)
  qed
  then show ?thesis by (simp add: I_def S_def)
qed

lemma read_all_ok:
  assumes "length hb0 = nq * (r + l)"
      and "\<forall>d<nq. (0 < d \<and> 0 < r \<longrightarrow> r \<le> length (x ! d)) \<and> (d + 1 < nq \<and> 0 < l \<longrightarrow> l \<le> length (x ! d))"
  shows "\<exists>hb. run_items (read_halos nq (int l) (int r) x) [0..<nq] hb0 = Inr hb"
proof -
  have "\<exists>hb. run_items (read_halos nq (int l) (int r) x) [0..<nq] hb0 = Inr hb \<and> length hb = nq * (r + l)"
  proof (rule run_items_invariant [where I = "\<lambda>i hb. length hb = nq * (r + l)"])
    show "length hb0 = nq * (r + l)" by (rule assms(1))
  next
    fix i and hb1 :: "'a list" assume i: "i < nq" and len: "length hb1 = nq * (r + l)"
    from read_halos_ok [OF len i] assms(2) i obtain hb2 where
      s: "read_halos nq (int l) (int r) x i hb1 = Inr hb2" by blast
    from read_halos_post [OF s len i] len s
    show "\<exists>hb2. read_halos nq (int l) (int r) x i hb1 = Inr hb2 \<and> length hb2 = nq * (r + l)" by simp
  qed
  then show ?thesis by blast
qed

lemma write_left:
  assumes "length hb = nq * (r + l)" "length db = l + r" "d < nq" "0 < d"
  shows "bindE (host_load hb ((int d - 1) * (int r + int l) + int r) (int l))
            (\<lambda>frag. enqueueWriteBuffer db 0 (map Some frag))
         = Inr (map Some (take l (drop ((d - 1) * (r + l) + r) hb)) @ drop l db)"
proof -
  define pos where "pos = (d - 1) * (r + l) + r"
  from assms(4) have "1 \<le> d" by simp
  then have i: "int (d - 1) = int d - 1" by (simp only: of_nat_diff of_nat_1)
  have e: "(int d - 1) * (int r + int l) + int r = int pos"
    by (simp only: pos_def of_nat_add of_nat_mult i)
  have "d - 1 < nq" using assms(3) by simp
  from block_bounds [OF this, of "r + l"] have room: "pos + l \<le> length hb"
    by (simp add: pos_def assms(1))
  have w: "enqueueWriteBuffer db 0 vals =
        (if length vals \<le> length db then Inr (vals @ drop (length vals) db) else Inl DeviceError)"
    for vals :: "'a option list"
    using enqueueWriteBuffer_nat [of db 0 vals] by simp
  have len: "length (map Some (take l (drop pos hb))) = l" using room by simp
  have ld: "host_load hb (int pos) (int l) = Inr (take l (drop pos hb))"
    using room by (simp only: host_load_nat) simp
  have wr: "enqueueWriteBuffer db 0 (map Some (take l (drop pos hb)))
              = Inr (map Some (take l (drop pos hb)) @ drop l db)"
    using assms(2) by (simp only: w len) simp
  show ?thesis
    unfolding e ld bindE_Inr wr pos_def [symmetric] ..
qed

lemma write_right:
  assumes "length hb = nq * (r + l)" "length db = l + r" "d + 1 < nq"
  shows "bindE (host_load hb ((int d + 1) * (int r + int l)) (int r))
            (\<lambda>frag. enqueueWriteBuffer db (int l) (map Some frag))
         = Inr (take l db @ map Some (take r (drop ((d + 1) * (r + l)) hb)))"
proof -
  define pos where "pos = (d + 1) * (r + l)"
  have e: "(int d + 1) * (int r + int l) = int pos"
    by (simp only: pos_def of_nat_add of_nat_mult of_nat_1)
  from block_bounds [OF assms(3), of "r + l"] have room: "pos + (r + l) \<le> length hb"
    by (simp add: pos_def assms(1))
  have len: "length (map Some (take r (drop pos hb))) = r" using room by simp
  have ld: "host_load hb (int pos) (int r) = Inr (take r (drop pos hb))"
    using room by (simp only: host_load_nat) simp
  have wr: "enqueueWriteBuffer db (int l) (map Some (take r (drop pos hb)))
              = Inr (take l db @ map Some (take r (drop pos hb)))"
    using assms(2) by (simp only: enqueueWriteBuffer_nat len) simp
  show ?thesis
    unfolding e ld bindE_Inr wr pos_def [symmetric] ..
qed


lemma write_halos_spec:
  assumes "length hb = nq * (r + l)" "length db = l + r" "d < nq"
  shows "\<exists>db'. write_halos nq (int l) (int r) hb d db = Inr db' \<and> length db' = l + r
           \<and> (0 < d \<longrightarrow> (\<forall>j<l. db' ! j = Some (hb ! ((d - 1) * (r + l) + r + j))))
           \<and> (d + 1 < nq \<longrightarrow> (\<forall>j<r. db' ! (l + j) = Some (hb ! ((d + 1) * (r + l) + j))))"
proof -
  define db1 where "db1 = (if 0 < d \<and> 0 < l
        then map Some (take l (drop ((d - 1) * (r + l) + r) hb)) @ drop l db else db)"
  define db2 where "db2 = (if d + 1 < nq \<and> 0 < r
        then take l db1 @ map Some (take r (drop ((d + 1) * (r + l)) hb)) else db1)"
  have "d - 1 < nq" using assms(3) by simp
  from block_bounds [OF this, of "r + l"] have roomL: "(d - 1) * (r + l) + r + l \<le> length hb"
    by (simp add: assms(1))
  have roomR: "d + 1 < nq \<Longrightarrow> (d + 1) * (r + l) + (r + l) \<le> length hb"
    using block_bounds [of "d + 1" nq "r + l"] assms(1) by simp
  have len1: "length db1 = l + r" using assms(2) roomL by (simp add: db1_def)
  have s1: "(if d > 0 \<and> int l > 0
            then bindE (host_load hb ((int d - 1) * (int r + int l) + int r) (int l))
                   (\<lambda>frag. enqueueWriteBuffer db 0 (map Some frag))
            else Inr db) = Inr db1"
    using write_left [OF assms] by (simp add: db1_def)
  have s2: "(if d + 1 < nq \<and> int r > 0
               then bindE (host_load hb ((int d + 1) * (int r + int l)) (int r))
                      (\<lambda>frag. enqueueWriteBuffer db1 (int l) (map Some frag))
               else Inr db1) = Inr db2"
    using write_right [OF assms(1) len1] by (simp add: db2_def)
  have run: "write_halos nq (int l) (int r) hb d db = Inr db2"
    unfolding write_halos_def s1 bindE_Inr s2 ..
  have len2: "length db2 = l + r" using len1 roomR by (auto simp add: db2_def)
  have left1: "db1 ! j = Some (hb ! ((d - 1) * (r + l) + r + j))" if "0 < d" "j < l" for j
    using that roomL by (simp add: db1_def nth_append)
  have left2: "db2 ! j = db1 ! j" if "j < l" for j
    using that len1 by (simp add: db2_def nth_append)
  have right2: "db2 ! (l + j) = Some (hb ! ((d + 1) * (r + l) + j))" if "d + 1 < nq" "j < r" for j
    using that roomR len1 by (simp add: db2_def nth_append)
  from run len2 left1 left2 right2 show ?thesis by auto
qed

text \<open>The interior launch on one device\<close>

lemma interior_spec:
  fixes y :: "'a::comm_ring_1 list list"
  assumes "0 \<le> lhalo st" "0 \<le> rhalo st"
      and "int (length (s st ! d)) = lhalo st + rhalo st + 1"
      and "0 < wgs st ! d"
      and "fast_kernel st ! d \<Longrightarrow> lhalo st + rhalo st + 1 \<le> int (wgs st ! d)"
      and "fast_kernel st ! d \<Longrightarrow> staged (length (x ! d)) (wgs st ! d) (lhalo st)"
      and "length (y ! d) = length (x ! d)"
  shows "\<exists>yd. interior st x alpha beta d y = Inr (y[d := yd]) \<and> length yd = length (x ! d)
           \<and> (\<forall>i<length (x ! d). yd ! i = (if alpha \<noteq> 0 then alpha * y ! d ! i else 0)
                 + beta * taps (\<lambda>j. 0 \<le> j \<and> j < int (length (x ! d))) (\<lambda>j. x ! d ! nat j)
                            (lhalo st) (rhalo st) (s st ! d) (int i))"
proof (cases "fast_kernel st ! d")
  case True
  have ls: "int (wgs st ! d) + 2 * (lhalo st + rhalo st) + 1
              \<le> int (nat (int (wgs st ! d) + 2 * (lhalo st + rhalo st) + 1))"
    using assms(1,2) by simp
  from launch_conv_local_spec [OF assms(1,2,3) refl assms(5) [OF True] ls assms(6) [OF True] assms(7),
          of alpha beta]
  obtain yd where yd:
    "launch_conv_local (length (x ! d)) (lhalo st) (rhalo st) (x ! d) (s st ! d) alpha beta
        (alignup (length (x ! d)) (wgs st ! d)) (wgs st ! d)
        (nat (int (wgs st ! d) + 2 * (lhalo st + rhalo st) + 1)) (y ! d) = Inr yd"
    "length yd = length (x ! d)"
    "\<forall>i<length (x ! d). yd ! i = (if alpha \<noteq> 0 then alpha * y ! d ! i else 0)
                 + beta * taps (\<lambda>j. 0 \<le> j \<and> j < int (length (x ! d))) (\<lambda>j. x ! d ! nat j)
                            (lhalo st) (rhalo st) (s st ! d) (int i)"
    by blast
  have "interior st x alpha beta d y = Inr (y[d := yd])"
    unfolding interior_def using assms(4) True by (simp only: yd(1) bindE_Inr if_True) simp
  with yd(2,3) show ?thesis by blast
next
  case False
  have al: "length (x ! d) \<le> alignup (length (x ! d)) (wgs st ! d)"
    unfolding alignup_def by (rule alignup_groups(2) [OF assms(4)])
  from launch_conv_local_big_spec [OF assms(1,2,3) refl assms(7) al, of alpha beta]
  obtain yd where yd:
    "launch_conv_local_big (length (x ! d)) (lhalo st) (rhalo st) (x ! d) (s st ! d) alpha beta
        (alignup (length (x ! d)) (wgs st ! d)) (y ! d) = Inr yd"
    "length yd = length (x ! d)"
    "\<forall>i<length (x ! d). yd ! i = (if alpha \<noteq> 0 then alpha * y ! d ! i else 0)
                 + beta * taps (\<lambda>j. 0 \<le> j \<and> j < int (length (x ! d))) (\<lambda>j. x ! d ! nat j)
                            (lhalo st) (rhalo st) (s st ! d) (int i)"
    by blast
  have "interior st x alpha beta d y = Inr (y[d := yd])"
    unfolding interior_def using assms(4) False by (simp add: yd(1))
  with yd(2,3) show ?thesis by blast
qed

text \<open>A loop over the devices that replaces the entry of each device in turn\<close>

lemma run_devices:
  assumes "length y = m"
      and "\<And>d ys. d < m \<Longrightarrow> length ys = m \<Longrightarrow> ys ! d = y ! d \<Longrightarrow> \<exists>yd. f d ys = Inr (ys[d := yd]) \<and> Q d yd"
  shows "\<exists>y'. run_items f [0..<m] y = Inr y' \<and> length y' = m \<and> (\<forall>d<m. Q d (y' ! d))"
proof -
  define I where "I i ys \<longleftrightarrow> length ys = m \<and> (\<forall>d<m. if d < i then Q d (ys ! d) else ys ! d = y ! d)"
    for i and ys :: "'a list"
  have "\<exists>y'. run_items f [0..<m] y = Inr y' \<and> I m y'"
  proof (rule run_items_invariant)
    show "I 0 y" using assms(1) by (simp add: I_def)
  next
    fix i ys assume i: "i < m" and inv: "I i ys"
    from inv have len: "length ys = m" and here: "ys ! i = y ! i" using i by (auto simp add: I_def)
    from assms(2) [OF i len here] obtain yd where yd: "f i ys = Inr (ys[i := yd])" "Q i yd" by blast
    have "I (Suc i) (ys[i := yd])"
      unfolding I_def
    proof (intro conjI allI impI)
      show "length (ys[i := yd]) = m" using len by simp
    next
      fix d assume d: "d < m"
      from inv d have old: "if d < i then Q d (ys ! d) else ys ! d = y ! d" by (simp add: I_def)
      show "if d < Suc i then Q d (ys[i := yd] ! d) else ys[i := yd] ! d = y ! d"
      proof (cases "d = i")
        case True
        with yd(2) len i show ?thesis by simp
      next
        case False
        with old show ?thesis by (auto simp add: less_Suc_eq)
      qed
    qed
    with yd(1) show "\<exists>st'. f i ys = Inr st' \<and> I (Suc i) st'" by blast
  qed
  then show ?thesis by (auto simp add: I_def)
qed

lemma hread_Some: "j < length h \<Longrightarrow> h ! j = Some v \<Longrightarrow> hread h (int j) = Some v"
  by (simp add: hread_def gread_def)

text \<open>The halo writes and the boundary launch on one device\<close>

lemma boundary_spec:
  fixes x :: "'a::comm_ring_1 list list"
  assumes st: "lhalo st = int l" "rhalo st = int r" "int (length (s st ! d)) = int l + int r + 1"
      and d: "d < length (queue st)" "length x = length (queue st)"
      and hb: "length hb = length (queue st) * (r + l)"
      and dy: "length (fst dy ! d) = l + r" "length (snd dy ! d) = length (x ! d)"
      and fit0: "l + r \<le> length (x ! d)" "0 < d \<Longrightarrow> l \<le> length (x ! (d - 1))"
      and hl: "\<And>j. 0 < d \<Longrightarrow> j < l
                 \<Longrightarrow> hb ! ((d - 1) * (r + l) + r + j) = x ! (d - 1) ! (length (x ! (d - 1)) - l + j)"
      and hr: "\<And>j. d + 1 < length (queue st) \<Longrightarrow> j < r \<Longrightarrow> hb ! ((d + 1) * (r + l) + j) = x ! (d + 1) ! j"
  shows "\<exists>db yd. boundary st hb x beta d dy = Inr ((fst dy)[d := db], (snd dy)[d := yd])
           \<and> length yd = length (x ! d)
           \<and> (\<forall>i<length (x ! d). yd ! i = snd dy ! d ! i
                 + beta * taps (\<lambda>j. j < 0) (neighbour x d) (int l) (int r) (s st ! d) (int i)
                 + beta * taps (\<lambda>j. int (length (x ! d)) \<le> j) (neighbour x d) (int l) (int r) (s st ! d) (int i))"
proof -
  define nq where "nq = length (queue st)"
  define n where "n = length (x ! d)"
  have fit: "l \<le> length (x ! d)" "r \<le> length (x ! d)" "0 < d \<Longrightarrow> l \<le> length (x ! (d - 1))"
    using fit0 by simp_all
  note d' = d [folded nq_def] and hb' = hb [folded nq_def] and hr' = hr [folded nq_def]
  from write_halos_spec [OF hb' dy(1) d'(1)] obtain db where db:
    "write_halos nq (int l) (int r) hb d (fst dy ! d) = Inr db" "length db = l + r"
    "0 < d \<longrightarrow> (\<forall>j<l. db ! j = Some (hb ! ((d - 1) * (r + l) + r + j)))"
    "d + 1 < nq \<longrightarrow> (\<forall>j<r. db ! (l + j) = Some (hb ! ((d + 1) * (r + l) + j)))"
    by blast
  have fl: "(if 0 < d then hread db (int l + p) else gread (x ! d) 0) = Some (neighbour x d p)"
    if p: "- int l \<le> p" "p < 0" for p
  proof (cases "0 < d")
    case True
    define j where "j = nat (int l + p)"
    have j: "j < l" "int l + p = int j" using p by (simp_all add: j_def)
    from db(3) True j(1) have "db ! j = Some (hb ! ((d - 1) * (r + l) + r + j))" by blast
    also have "hb ! ((d - 1) * (r + l) + r + j) = x ! (d - 1) ! (length (x ! (d - 1)) - l + j)"
      by (rule hl [OF True j(1)])
    finally have v: "db ! j = Some (x ! (d - 1) ! (length (x ! (d - 1)) - l + j))" .
    have jl: "j < length db" using j(1) db(2) by simp
    have idx: "nat (int (length (x ! (d - 1))) + p) = length (x ! (d - 1)) - l + j"
      using fit(3) [OF True] j(2) by linarith
    have "neighbour x d p = x ! (d - 1) ! (length (x ! (d - 1)) - l + j)"
      using True p(2) by (simp only: neighbour_def if_True idx)
    with hread_Some [OF jl v] True show ?thesis by (simp only: j(2) if_True)
  next
    case False
    from p have "0 < l" by linarith
    with fit(1) have "0 < length (x ! d)" by linarith
    then have "gread (x ! d) 0 = Some (x ! d ! 0)" by (simp add: gread_def)
    moreover have "neighbour x d p = x ! d ! 0" using False p(2) by (simp add: neighbour_def)
    ultimately show ?thesis using False by simp
  qed
  have fr: "(if d + 1 < nq then hread db (int l + (p - int n)) else gread (x ! d) (int n - 1))
              = Some (neighbour x d p)"
    if p: "int n \<le> p" "p < int n + int r" for p
  proof (cases "d + 1 < nq")
    case True
    define j where "j = nat (p - int n)"
    have j: "j < r" "p - int n = int j" using p by (simp_all add: j_def)
    from db(4) True j(1) have "db ! (l + j) = Some (hb ! ((d + 1) * (r + l) + j))" by blast
    also have "hb ! ((d + 1) * (r + l) + j) = x ! (d + 1) ! j" by (rule hr' [OF True j(1)])
    finally have v: "db ! (l + j) = Some (x ! (d + 1) ! j)" .
    have jl: "l + j < length db" using j(1) db(2) by simp
    have e: "int l + (p - int n) = int (l + j)" using j(2) by simp
    have np: "\<not> p < 0" using p(1) by linarith
    have "neighbour x d p = x ! (d + 1) ! j"
      using True p(1) np by (simp add: neighbour_def d'(2) n_def [symmetric] j_def)
    with hread_Some [OF jl v] True show ?thesis by (simp only: e if_True)
  next
    case False
    from p have "0 < r" by linarith
    with fit(2) have pos: "0 < n" unfolding n_def by linarith
    then have "nat (int n - 1) = n - 1" by linarith
    with pos have "gread (x ! d) (int n - 1) = Some (x ! d ! (n - 1))"
      unfolding gread_def n_def [symmetric] by simp
    moreover have "neighbour x d p = x ! d ! (n - 1)"
      using False p(1) by (simp add: neighbour_def d'(2) n_def [symmetric])
    ultimately show ?thesis using False by simp
  qed
  have z: "0 \<le> int l" "0 \<le> int r" by simp_all
  have fit': "int l + int r \<le> int n" using fit0(1) by (simp add: n_def)
  have leny: "length (snd dy ! d) = n" using dy(2) by (simp add: n_def)
  from launch_conv_remote_spec [where f = "neighbour x d" and has_left = "0 < d" and has_right = "d + 1 < nq"
          and h = db and x = "x ! d" and beta = beta,
          OF z st(3) leny fit' fl fr]
  obtain yd where yd:
    "launch_conv_remote n (0 < d) (d + 1 < nq) (int l) (int r) (x ! d) db (s st ! d) beta
        (nat (max (int l) (int r))) (snd dy ! d) = Inr yd"
    "length yd = n"
    "\<forall>i<n. yd ! i = snd dy ! d ! i
                 + beta * taps (\<lambda>j. j < 0) (neighbour x d) (int l) (int r) (s st ! d) (int i)
                 + beta * taps (\<lambda>j. int n \<le> j) (neighbour x d) (int l) (int r) (s st ! d) (int i)"
    by blast
  have "boundary st hb x beta d dy = Inr ((fst dy)[d := db], (snd dy)[d := yd])"
    unfolding boundary_def st(1,2) nq_def [symmetric] n_def [symmetric] db(1) bindE_Inr yd(1) ..
  with yd(2,3) show ?thesis unfolding n_def by blast
qed

text \<open>The loop over the devices, on the pair of the halo buffers and the output\<close>

lemma run_devices_pair:
  assumes "length (fst dy) = m" "length (snd dy) = m"
      and "\<And>d dy1. d < m \<Longrightarrow> fst dy1 ! d = fst dy ! d \<Longrightarrow> snd dy1 ! d = snd dy ! d
              \<Longrightarrow> \<exists>db yd. f d dy1 = Inr ((fst dy1)[d := db], (snd dy1)[d := yd]) \<and> Q d yd"
  shows "\<exists>dy'. run_items f [0..<m] dy = Inr dy' \<and> length (snd dy') = m \<and> (\<forall>d<m. Q d (snd dy' ! d))"
proof -
  define I where "I i dy1 \<longleftrightarrow> length (fst dy1) = m \<and> length (snd dy1) = m
      \<and> (\<forall>d<m. if d < i then Q d (snd dy1 ! d) else fst dy1 ! d = fst dy ! d \<and> snd dy1 ! d = snd dy ! d)"
    for i and dy1 :: "'a list \<times> 'b list"
  have "\<exists>dy'. run_items f [0..<m] dy = Inr dy' \<and> I m dy'"
  proof (rule run_items_invariant)
    show "I 0 dy" using assms(1,2) by (simp add: I_def)
  next
    fix i dy1 assume i: "i < m" and inv: "I i dy1"
    from inv have len: "length (fst dy1) = m" "length (snd dy1) = m"
      and here: "fst dy1 ! i = fst dy ! i" "snd dy1 ! i = snd dy ! i"
      using i by (auto simp add: I_def)
    from assms(3) [OF i here] obtain db yd where
      yd: "f i dy1 = Inr ((fst dy1)[i := db], (snd dy1)[i := yd])" "Q i yd" by blast
    have "I (Suc i) ((fst dy1)[i := db], (snd dy1)[i := yd])"
      unfolding I_def
    proof (intro conjI allI impI)
      show "length (fst ((fst dy1)[i := db], (snd dy1)[i := yd])) = m" using len by simp
      show "length (snd ((fst dy1)[i := db], (snd dy1)[i := yd])) = m" using len by simp
    next
      fix d assume d: "d < m"
      from inv d have old: "if d < i then Q d (snd dy1 ! d)
                            else fst dy1 ! d = fst dy ! d \<and> snd dy1 ! d = snd dy ! d"
        by (simp add: I_def)
      show "if d < Suc i then Q d (snd ((fst dy1)[i := db], (snd dy1)[i := yd]) ! d)
            else fst ((fst dy1)[i := db], (snd dy1)[i := yd]) ! d = fst dy ! d
               \<and> snd ((fst dy1)[i := db], (snd dy1)[i := yd]) ! d = snd dy ! d"
      proof (cases "d = i")
        case True
        with yd(2) len i show ?thesis by simp
      next
        case False
        with old show ?thesis by (auto simp add: less_Suc_eq)
      qed
    qed
    with yd(1) show "\<exists>st'. f i dy1 = Inr st' \<and> I (Suc i) st'" by blast
  qed
  then show ?thesis by (auto simp add: I_def)
qed

lemma taps_cong:
  assumes "\<And>j. P j \<Longrightarrow> f j = g j"
  shows "taps P f lh rh sw i = taps P g lh rh sw i"
  unfolding taps_def by (rule sum.cong) (simp_all add: assms)

lemma taps_split:
  "taps (\<lambda>j. True) f lh rh sw i =
     taps (\<lambda>j. 0 \<le> j \<and> j < int n) f lh rh sw i + taps (\<lambda>j. j < 0) f lh rh sw i
       + taps (\<lambda>j. int n \<le> j) f lh rh sw i"
  unfolding taps_def sum.distrib [symmetric] by (rule sum.cong) auto

lemma neighbour_inside: "0 \<le> j \<Longrightarrow> j < int (length (x ! d)) \<Longrightarrow> neighbour x d j = x ! d ! nat j"
  by (simp add: neighbour_def)


lemma convolve_devices:
  fixes x y :: "'a::comm_ring_1 list list"
  assumes st: "lhalo st = int l" "rhalo st = int r"
      and nq: "length x = length (queue st)" "length y = length (queue st)"
      and sw: "\<And>d. d < length (queue st) \<Longrightarrow> s st ! d = w" "length w = l + r + 1"
      and hb: "length (hbuf st) = length (queue st) * (r + l)"
      and db: "0 < l + r \<Longrightarrow> length (dbuf st) = length (queue st)"
              "\<And>d. 0 < l + r \<Longrightarrow> d < length (queue st) \<Longrightarrow> length (dbuf st ! d) = l + r"
      and wg: "\<And>d. d < length (queue st) \<Longrightarrow> 0 < wgs st ! d"
      and fast: "\<And>d. d < length (queue st) \<Longrightarrow> fast_kernel st ! d \<Longrightarrow> l + r + 1 \<le> wgs st ! d"
      and stg: "\<And>d. d < length (queue st) \<Longrightarrow> fast_kernel st ! d
                  \<Longrightarrow> staged (length (x ! d)) (wgs st ! d) (int l)"
      and shape: "\<And>d. d < length (queue st) \<Longrightarrow> length (y ! d) = length (x ! d)"
      and fit0: "\<And>d. d < length (queue st) \<Longrightarrow> l + r \<le> length (x ! d)"
  shows "\<exists>st' y'. convolve st x y alpha beta = Inr (st', y') \<and> length y' = length (queue st)
           \<and> (\<forall>d<length (queue st). length (y' ! d) = length (x ! d)
                \<and> (\<forall>i<length (x ! d). y' ! d ! i = (if alpha \<noteq> 0 then alpha * y ! d ! i else 0)
                      + beta * taps (\<lambda>j. True) (neighbour x d) (int l) (int r) w (int i)))"
proof -
  define nq where "nq = length (queue st)"
  have fit: "l \<le> length (x ! d) \<and> r \<le> length (x ! d)" if "d < length (queue st)" for d
    using fit0 [OF that] by simp
  note nq' = nq [folded nq_def] and sw' = sw(1) [folded nq_def] and hb' = hb [folded nq_def]
   and db' = db [folded nq_def] and wg' = wg [folded nq_def] and fast' = fast [folded nq_def]
   and stg' = stg [folded nq_def] and shape' = shape [folded nq_def] and fit' = fit [folded nq_def]
   and fit0' = fit0 [folded nq_def]
  define inner where "inner d i = taps (\<lambda>j. 0 \<le> j \<and> j < int (length (x ! d))) (neighbour x d) (int l) (int r) w (int i)"
    for d i
  define left where "left d i = taps (\<lambda>j. j < 0) (neighbour x d) (int l) (int r) w (int i)" for d i
  define right where "right d i = taps (\<lambda>j. int (length (x ! d)) \<le> j) (neighbour x d) (int l) (int r) w (int i)"
    for d i
  have all: "taps (\<lambda>j. True) (neighbour x d) (int l) (int r) w (int i) = inner d i + left d i + right d i"
    for d i
    unfolding inner_def left_def right_def by (rule taps_split)
  have "\<exists>hbv. (if nq > 1 \<and> int l + int r > 0
               then run_items (read_halos nq (int l) (int r) x) [0..<nq] (hbuf st)
               else Inr (hbuf st)) = Inr hbv
          \<and> length hbv = nq * (r + l)
          \<and> (\<forall>d<nq. (0 < d \<longrightarrow> (\<forall>j<r. hbv ! (d * (r + l) + j) = x ! d ! j))
                   \<and> (d + 1 < nq \<longrightarrow> (\<forall>j<l. hbv ! (d * (r + l) + r + j) = x ! d ! (length (x ! d) - l + j))))"
  proof (cases "nq > 1 \<and> int l + int r > 0")
    case True
    have "\<forall>d<nq. (0 < d \<and> 0 < r \<longrightarrow> r \<le> length (x ! d)) \<and> (d + 1 < nq \<and> 0 < l \<longrightarrow> l \<le> length (x ! d))"
      using fit' by blast
    from read_all_ok [OF hb' this] obtain hbv where
      run: "run_items (read_halos nq (int l) (int r) x) [0..<nq] (hbuf st) = Inr hbv" by blast
    from read_all_post [OF run hb'] have
      post: "length hbv = nq * (r + l)"
        "\<forall>d<nq. (0 < d \<and> 0 < r \<longrightarrow> r \<le> length (x ! d) \<and> (\<forall>j<r. hbv ! (d * (r + l) + j) = x ! d ! j))
                \<and> (d + 1 < nq \<and> 0 < l \<longrightarrow> l \<le> length (x ! d)
                      \<and> (\<forall>j<l. hbv ! (d * (r + l) + r + j) = x ! d ! (length (x ! d) - l + j)))"
      by blast+
    have "(0 < d \<longrightarrow> (\<forall>j<r. hbv ! (d * (r + l) + j) = x ! d ! j))
        \<and> (d + 1 < nq \<longrightarrow> (\<forall>j<l. hbv ! (d * (r + l) + r + j) = x ! d ! (length (x ! d) - l + j)))"
      if "d < nq" for d
      using post(2) that by (cases "0 < r"; cases "0 < l") auto
    then have facts: "\<forall>d<nq. (0 < d \<longrightarrow> (\<forall>j<r. hbv ! (d * (r + l) + j) = x ! d ! j))
        \<and> (d + 1 < nq \<longrightarrow> (\<forall>j<l. hbv ! (d * (r + l) + r + j) = x ! d ! (length (x ! d) - l + j)))"
      by blast
    show ?thesis
      unfolding if_P [OF True] by (rule exI [of _ hbv]) (intro conjI run post(1) facts)
  next
    case False
    then have small: "nq \<le> 1 \<or> (l = 0 \<and> r = 0)" by auto
    have "(0 < d \<longrightarrow> (\<forall>j<r. hbuf st ! (d * (r + l) + j) = x ! d ! j))
        \<and> (d + 1 < nq \<longrightarrow> (\<forall>j<l. hbuf st ! (d * (r + l) + r + j) = x ! d ! (length (x ! d) - l + j)))"
      if "d < nq" for d
      using small that by auto
    then have facts: "\<forall>d<nq. (0 < d \<longrightarrow> (\<forall>j<r. hbuf st ! (d * (r + l) + j) = x ! d ! j))
        \<and> (d + 1 < nq \<longrightarrow> (\<forall>j<l. hbuf st ! (d * (r + l) + r + j) = x ! d ! (length (x ! d) - l + j)))"
      by blast
    show ?thesis
      unfolding if_not_P [OF False] by (rule exI [of _ "hbuf st"]) (intro conjI refl hb' facts)
  qed
  then obtain hbv where hbv:
    "(if nq > 1 \<and> int l + int r > 0
      then run_items (read_halos nq (int l) (int r) x) [0..<nq] (hbuf st)
      else Inr (hbuf st)) = Inr hbv"
    "length hbv = nq * (r + l)"
    "\<And>d j. d < nq \<Longrightarrow> 0 < d \<Longrightarrow> j < r \<Longrightarrow> hbv ! (d * (r + l) + j) = x ! d ! j"
    "\<And>d j. d < nq \<Longrightarrow> d + 1 < nq \<Longrightarrow> j < l \<Longrightarrow> hbv ! (d * (r + l) + r + j) = x ! d ! (length (x ! d) - l + j)"
    by blast
  have "\<exists>y1. run_items (interior st x alpha beta) [0..<nq] y = Inr y1 \<and> length y1 = nq
          \<and> (\<forall>d<nq. length (y1 ! d) = length (x ! d)
                \<and> (\<forall>i<length (x ! d). y1 ! d ! i = (if alpha \<noteq> 0 then alpha * y ! d ! i else 0) + beta * inner d i))"
  proof (rule run_devices [OF nq'(2)])
    fix d ys assume d: "d < nq" and here: "(ys :: 'a list list) ! d = y ! d"
    have a3: "int (length (s st ! d)) = lhalo st + rhalo st + 1"
      unfolding sw' [OF d] sw(2) st by simp
    have a5: "lhalo st + rhalo st + 1 \<le> int (wgs st ! d)" if "fast_kernel st ! d"
      unfolding st using fast' [OF d that] by linarith
    have a6: "staged (length (x ! d)) (wgs st ! d) (lhalo st)" if "fast_kernel st ! d"
      using stg' [OF d that] by (simp only: st)
    have a7: "length (ys ! d) = length (x ! d)" using shape' [OF d] here by simp
    have z: "0 \<le> lhalo st" "0 \<le> rhalo st" by (simp_all add: st)
    from interior_spec [OF z a3 wg' [OF d] a5 a6 a7, of alpha beta]
    obtain yd where yd: "interior st x alpha beta d ys = Inr (ys[d := yd])" "length yd = length (x ! d)"
      "\<forall>i<length (x ! d). yd ! i = (if alpha \<noteq> 0 then alpha * ys ! d ! i else 0)
                 + beta * taps (\<lambda>j. 0 \<le> j \<and> j < int (length (x ! d))) (\<lambda>j. x ! d ! nat j)
                            (lhalo st) (rhalo st) (s st ! d) (int i)"
      by blast
    have c: "taps (\<lambda>j. 0 \<le> j \<and> j < int (length (x ! d))) (\<lambda>j. x ! d ! nat j)
                (lhalo st) (rhalo st) (s st ! d) (int i) = inner d i" for i
      unfolding inner_def st sw' [OF d] by (rule taps_cong) (simp add: neighbour_inside)
    from yd show "\<exists>yd. interior st x alpha beta d ys = Inr (ys[d := yd])
            \<and> (length yd = length (x ! d)
                \<and> (\<forall>i<length (x ! d). yd ! i = (if alpha \<noteq> 0 then alpha * y ! d ! i else 0) + beta * inner d i))"
      unfolding c here by blast
  qed
  then obtain y1 where y1:
    "run_items (interior st x alpha beta) [0..<nq] y = Inr y1" "length y1 = nq"
    "\<And>d. d < nq \<Longrightarrow> length (y1 ! d) = length (x ! d)"
    "\<And>d i. d < nq \<Longrightarrow> i < length (x ! d)
        \<Longrightarrow> y1 ! d ! i = (if alpha \<noteq> 0 then alpha * y ! d ! i else 0) + beta * inner d i"
    by blast
  show ?thesis
  proof (cases "0 < l + r")
    case True
    have "\<exists>dy'. run_items (boundary st hbv x beta) [0..<nq] (dbuf st, y1) = Inr dy' \<and> length (snd dy') = nq
          \<and> (\<forall>d<nq. length (snd dy' ! d) = length (x ! d)
                \<and> (\<forall>i<length (x ! d). snd dy' ! d ! i = y1 ! d ! i + beta * left d i + beta * right d i))"
    proof (rule run_devices_pair)
      show "length (fst (dbuf st, y1)) = nq" using db'(1) [OF True] by simp
      show "length (snd (dbuf st, y1)) = nq" using y1(2) by simp
    next
      fix d and dy1 :: "'a option list list \<times> 'a list list"
      assume d: "d < nq" and here: "fst dy1 ! d = fst (dbuf st, y1) ! d" "snd dy1 ! d = snd (dbuf st, y1) ! d"
      have dq: "d < length (queue st)" using d by (simp add: nq_def)
      have a3: "int (length (s st ! d)) = int l + int r + 1" by (simp add: sw' [OF d] sw(2))
      have l1: "length (fst dy1 ! d) = l + r" using here(1) db'(2) [OF True d] by simp
      have l2: "length (snd dy1 ! d) = length (x ! d)" using here(2) y1(3) [OF d] by simp
      have f12: "l + r \<le> length (x ! d)" by (rule fit0' [OF d])
      have f3: "l \<le> length (x ! (d - 1))" if "0 < d"
      proof -
        have "d - 1 < nq" using d by simp
        from fit' [OF this] show ?thesis by simp
      qed
      have hl: "hbv ! ((d - 1) * (r + l) + r + j) = x ! (d - 1) ! (length (x ! (d - 1)) - l + j)"
        if "0 < d" "j < l" for j
      proof -
        have a: "d - 1 < nq" "d - 1 + 1 < nq" using d that(1) by simp_all
        show ?thesis by (rule hbv(4) [OF a that(2)])
      qed
      have hr: "hbv ! ((d + 1) * (r + l) + j) = x ! (d + 1) ! j" if "d + 1 < length (queue st)" "j < r" for j
      proof -
        have a: "d + 1 < nq" "0 < d + 1" using that(1) by (simp_all add: nq_def)
        show ?thesis by (rule hbv(3) [OF a that(2)])
      qed
      have hbl: "length hbv = length (queue st) * (r + l)" using hbv(2) by (simp add: nq_def)
      from boundary_spec [OF st a3 dq nq(1) hbl l1 l2 f12 f3 hl hr, of beta]
      obtain db yd where b: "boundary st hbv x beta d dy1 = Inr ((fst dy1)[d := db], (snd dy1)[d := yd])"
        "length yd = length (x ! d)"
        "\<forall>i<length (x ! d). yd ! i = snd dy1 ! d ! i
                 + beta * taps (\<lambda>j. j < 0) (neighbour x d) (int l) (int r) (s st ! d) (int i)
                 + beta * taps (\<lambda>j. int (length (x ! d)) \<le> j) (neighbour x d) (int l) (int r) (s st ! d) (int i)"
        by blast
      have h2: "snd dy1 ! d = y1 ! d" using here(2) by simp
      from b(3) have b3: "\<forall>i<length (x ! d). yd ! i = y1 ! d ! i + beta * left d i + beta * right d i"
        unfolding left_def right_def sw' [OF d] h2 .
      from b(1,2) b3 show "\<exists>db yd. boundary st hbv x beta d dy1 = Inr ((fst dy1)[d := db], (snd dy1)[d := yd])
            \<and> (length yd = length (x ! d)
                \<and> (\<forall>i<length (x ! d). yd ! i = y1 ! d ! i + beta * left d i + beta * right d i))"
        by blast
    qed
    then obtain dy' where dy':
      "run_items (boundary st hbv x beta) [0..<nq] (dbuf st, y1) = Inr dy'" "length (snd dy') = nq"
      "\<And>d. d < nq \<Longrightarrow> length (snd dy' ! d) = length (x ! d)"
      "\<And>d i. d < nq \<Longrightarrow> i < length (x ! d)
          \<Longrightarrow> snd dy' ! d ! i = y1 ! d ! i + beta * left d i + beta * right d i"
      by blast
    have cond: "0 < int l + int r" using True by linarith
    have run: "convolve st x y alpha beta = Inr (st\<lparr>hbuf := hbv, dbuf := fst dy'\<rparr>, snd dy')"
      unfolding convolve_def halo_reads_def st nq_def [symmetric] hbv(1) bindE_Inr y1(1) if_P [OF cond] dy'(1) ..
    have "snd dy' ! d ! i = (if alpha \<noteq> 0 then alpha * y ! d ! i else 0)
             + beta * taps (\<lambda>j. True) (neighbour x d) (int l) (int r) w (int i)"
      if "d < nq" "i < length (x ! d)" for d i
      unfolding all dy'(4) [OF that] y1(4) [OF that] by (simp add: algebra_simps)
    with run dy'(2,3) show ?thesis unfolding nq_def [symmetric] by blast
  next
    case False
    then have z: "l = 0" "r = 0" by simp_all
    have cond: "\<not> 0 < int l + int r" using False by linarith
    have run: "convolve st x y alpha beta = Inr (st\<lparr>hbuf := hbv\<rparr>, y1)"
      unfolding convolve_def halo_reads_def st nq_def [symmetric] hbv(1) bindE_Inr y1(1) if_not_P [OF cond] ..
    have l0: "left d i = 0" for d i unfolding left_def z by (rule taps_none) simp
    have r0: "right d i = 0" if "i < length (x ! d)" for d i
      unfolding right_def z by (rule taps_none) (use that in simp)
    have "y1 ! d ! i = (if alpha \<noteq> 0 then alpha * y ! d ! i else 0)
             + beta * taps (\<lambda>j. True) (neighbour x d) (int l) (int r) w (int i)"
      if "d < nq" "i < length (x ! d)" for d i
      unfolding all y1(4) [OF that] l0 r0 [OF that(2)] by simp
    with run y1(2,3) show ?thesis unfolding nq_def [symmetric] by blast
  qed
qed

text \<open>A partitioned vector and the vector as a whole\<close>

lemma concat_take_Suc:
  "d < length x \<Longrightarrow> length (concat (take (Suc d) x)) = length (concat (take d x)) + length (x ! d)"
  by (simp add: take_Suc_conv_app_nth)

lemma concat_split:
  assumes "d < length x"
  shows "concat x = concat (take d x) @ x ! d @ concat (drop (Suc d) x)"
proof -
  have "x = take d x @ x ! d # drop (Suc d) x" using assms by (simp add: id_take_nth_drop)
  then have "concat x = concat (take d x @ x ! d # drop (Suc d) x)" by simp
  then show ?thesis by simp
qed

lemma concat_nth:
  assumes "d < length x" "i < length (x ! d)"
  shows "length (concat (take d x)) + i < length (concat x)"
    and "concat x ! (length (concat (take d x)) + i) = x ! d ! i"
proof -
  note e = concat_split [OF assms(1)]
  have "length (concat x) = length (concat (take d x)) + length (x ! d) + length (concat (drop (Suc d) x))"
    by (subst e) simp
  with assms(2) show "length (concat (take d x)) + i < length (concat x)" by linarith
  show "concat x ! (length (concat (take d x)) + i) = x ! d ! i"
    by (subst e) (simp add: nth_append assms(2))
qed

lemma concat_last_block:
  assumes "d < length x" "\<not> d + 1 < length x"
  shows "length (concat x) = length (concat (take d x)) + length (x ! d)"
proof -
  from assms have "Suc d = length x" by simp
  then have "take (Suc d) x = x" by simp
  with concat_take_Suc [OF assms(1)] show ?thesis by simp
qed

lemma neighbour_concat:
  assumes d: "d < length x" and i: "i < length (x ! d)" and k: "- int l \<le> k" "k \<le> int r"
      and fl: "0 < d \<Longrightarrow> l \<le> length (x ! (d - 1))"
      and fr: "d + 1 < length x \<Longrightarrow> r \<le> length (x ! (d + 1))"
  shows "neighbour x d (int i + k) = concat x ! clamp (length (concat x)) (int (length (concat (take d x)) + i) + k)"
proof -
  define N where "N = length (concat x)"
  define off where "off = length (concat (take d x))"
  define n where "n = length (x ! d)"
  note i' = i [folded n_def]
  have inN: "off + i < N" "concat x ! (off + i) = x ! d ! i" if "i < n" for i
    using concat_nth [OF d, of i] that unfolding N_def off_def n_def by blast+
  consider (inside) "0 \<le> int i + k" "int i + k < int n" | (left) "int i + k < 0" | (right) "int n \<le> int i + k"
    by linarith
  then have "neighbour x d (int i + k) = concat x ! clamp N (int (off + i) + k)"
  proof cases
    case inside
    define j where "j = nat (int i + k)"
    have j: "j < n" "int i + k = int j" using inside by (simp_all add: j_def)
    have e: "int (off + i) + k = int (off + j)" using j(2) by simp
    have c: "clamp N (int (off + j)) = off + j" using inN(1) [OF j(1)] by (simp add: clamp_def)
    have "neighbour x d (int j) = x ! d ! j" using j(1) by (simp add: neighbour_def n_def)
    then show ?thesis unfolding j(2) e c inN(2) [OF j(1)] .
  next
    case left
    show ?thesis
    proof (cases "0 < d")
      case True
      define m where "m = length (x ! (d - 1))"
      define j where "j = nat (int m + (int i + k))"
      have lm: "l \<le> m" using fl [OF True] by (simp add: m_def)
      have j: "j < m" "int m + (int i + k) = int j" using left k(1) lm by (simp_all add: j_def)
      have d1: "d - 1 < length x" "Suc (d - 1) = d" using d True by simp_all
      have offd: "off = length (concat (take (d - 1) x)) + m"
        using concat_take_Suc [OF d1(1)] unfolding d1(2) off_def m_def .
      have e: "int (off + i) + k = int (length (concat (take (d - 1) x)) + j)"
        unfolding offd using j(2) by simp
      have jm: "j < length (x ! (d - 1))" using j(1) by (simp add: m_def)
      note cn = concat_nth [OF d1(1) jm]
      have c: "clamp N (int (length (concat (take (d - 1) x)) + j)) = length (concat (take (d - 1) x)) + j"
        using cn(1) by (simp add: clamp_def N_def)
      have "neighbour x d (int i + k) = x ! (d - 1) ! j"
        using True left by (simp add: neighbour_def j_def m_def)
      then show ?thesis unfolding e c cn(2) .
    next
      case False
      then have d0: "d = 0" by simp
      have "0 < n" using i' by simp
      from inN [OF this] have z: "0 < N" "concat x ! 0 = x ! d ! 0" by (simp_all add: off_def d0)
      have "int (off + i) + k < 0" using left by (simp add: off_def d0)
      then have c: "clamp N (int (off + i) + k) = 0" by (simp add: clamp_def)
      have "neighbour x d (int i + k) = x ! d ! 0" using left by (simp add: neighbour_def d0)
      then show ?thesis unfolding c z(2) .
    qed
  next
    case right
    have nl: "\<not> int i + k < 0" using right by linarith
    show ?thesis
    proof (cases "d + 1 < length x")
      case True
      define j where "j = nat (int i + k - int n)"
      have j: "int i + k - int n = int j" "j < r" using right k(2) i' by (simp_all add: j_def)
      have jm: "j < length (x ! (d + 1))" using fr [OF True] j(2) by linarith
      have offd: "length (concat (take (d + 1) x)) = off + n"
        using concat_take_Suc [OF d] by (simp add: off_def n_def)
      note cn = concat_nth [OF True jm]
      have e: "int (off + i) + k = int (length (concat (take (d + 1) x)) + j)"
        unfolding offd using j(1) by simp
      have c: "clamp N (int (length (concat (take (d + 1) x)) + j)) = length (concat (take (d + 1) x)) + j"
        using cn(1) by (simp add: clamp_def N_def)
      have "neighbour x d (int i + k) = x ! (d + 1) ! j"
        using True right nl by (simp add: neighbour_def j_def n_def)
      then show ?thesis unfolding e c cn(2) .
    next
      case False
      have Nn: "N = off + n" using concat_last_block [OF d False] by (simp add: N_def off_def n_def)
      have pos: "0 < n" using i' by simp
      then have lt: "n - 1 < n" by simp
      have "int N \<le> int (off + i) + k" unfolding Nn using right by simp
      then have c: "clamp N (int (off + i) + k) = off + (n - 1)"
        using pos by (simp add: clamp_def Nn)
      have "neighbour x d (int i + k) = x ! d ! (n - 1)"
        using False right nl by (simp add: neighbour_def n_def)
      then show ?thesis unfolding c inN(2) [OF lt] .
    qed
  qed
  then show ?thesis unfolding N_def off_def .
qed

lemma taps_reindex:
  "taps (\<lambda>j. True) f (int l) (int r) w i = (\<Sum>j = 0..<l + r + 1. w ! j * f (i + (int j - int l)))"
proof -
  have "(\<Sum>k = - int l..int r. w ! nat (int l + k) * f (i + k))
          = (\<Sum>j = 0..<l + r + 1. w ! j * f (i + (int j - int l)))"
    by (rule sum.reindex_bij_witness [where i = "\<lambda>j. int j - int l" and j = "\<lambda>k. nat (k + int l)"])
       (auto simp add: algebra_simps)
  then show ?thesis by (simp add: taps_def)
qed

lemma convolve_pure_taps:
  fixes x :: "'a::comm_ring_1 list list"
  assumes d: "d < length x" and i: "i < length (x ! d)" and w: "length w = l + r + 1"
      and fl: "0 < d \<Longrightarrow> l \<le> length (x ! (d - 1))"
      and fr: "d + 1 < length x \<Longrightarrow> r \<le> length (x ! (d + 1))"
  shows "convolve_pure w l (concat x) ! (length (concat (take d x)) + i)
           = taps (\<lambda>j. True) (neighbour x d) (int l) (int r) w (int i)"
proof -
  define p where "p = length (concat (take d x)) + i"
  have pN: "p < length (concat x)" unfolding p_def by (rule concat_nth(1) [OF d i])
  have "convolve_pure w l (concat x) ! p
          = sum_list (map (\<lambda>j. w ! j * concat x ! clamp (length (concat x)) (int p + int j - int l)) [0..<length w])"
    unfolding convolve_pure_def using pN by simp
  also have "\<dots> = (\<Sum>j = 0..<l + r + 1. w ! j * concat x ! clamp (length (concat x)) (int p + int j - int l))"
    unfolding w by (simp add: interv_sum_list_conv_sum_set_nat)
  also have "\<dots> = (\<Sum>j = 0..<l + r + 1. w ! j * neighbour x d (int i + (int j - int l)))"
  proof (rule sum.cong [OF refl])
    fix j assume "j \<in> {0..<l + r + 1}"
    then have k: "- int l \<le> int j - int l" "int j - int l \<le> int r" by auto
    have e: "int p + int j - int l = int p + (int j - int l)" by simp
    have "neighbour x d (int i + (int j - int l))
            = concat x ! clamp (length (concat x)) (int p + (int j - int l))"
      unfolding p_def by (rule neighbour_concat [OF d i k fl fr])
    then show "w ! j * concat x ! clamp (length (concat x)) (int p + int j - int l)
            = w ! j * neighbour x d (int i + (int j - int l))"
      by (simp only: e)
  qed
  also have "\<dots> = taps (\<lambda>j. True) (neighbour x d) (int l) (int r) w (int i)"
    by (rule taps_reindex [symmetric])
  finally show ?thesis unfolding p_def .
qed

text \<open>The partitions of a vector whose elements are given by their global index\<close>

lemma concat_pointwise:
  assumes "length ys = length xs"
      and "\<And>d. d < length xs \<Longrightarrow> length (ys ! d) = length (xs ! d)"
      and "\<And>d i. d < length xs \<Longrightarrow> i < length (xs ! d) \<Longrightarrow> ys ! d ! i = F (length (concat (take d xs)) + i)"
  shows "concat ys = map F [0..<length (concat xs)]"
proof -
  have "concat (take n ys) = map F [0..<length (concat (take n xs))]" if "n \<le> length xs" for n
    using that
  proof (induction n)
    case 0
    then show ?case by simp
  next
    case (Suc n)
    then have n: "n < length xs" "n < length ys" using assms(1) by simp_all
    define a where "a = length (concat (take n xs))"
    have IH: "concat (take n ys) = map F [0..<a]" unfolding a_def using Suc by simp
    have blk: "ys ! n = map F [a..<a + length (xs ! n)]"
    proof (rule nth_equalityI)
      show "length (ys ! n) = length (map F [a..<a + length (xs ! n)])" using assms(2) [OF n(1)] by simp
    next
      fix i assume "i < length (ys ! n)"
      then have i: "i < length (xs ! n)" using assms(2) [OF n(1)] by simp
      from assms(3) [OF n(1) i] i show "ys ! n ! i = map F [a..<a + length (xs ! n)] ! i"
        by (simp add: a_def)
    qed
    have "concat (take (Suc n) ys) = concat (take n ys) @ ys ! n"
      using n(2) by (simp add: take_Suc_conv_app_nth)
    also have "\<dots> = map F [0..<a] @ map F [a..<a + length (xs ! n)]" unfolding IH blk ..
    also have "\<dots> = map F [0..<a + length (xs ! n)]"
      unfolding map_append [symmetric] by (simp add: upt_add_eq_append [symmetric])
    also have "a + length (xs ! n) = length (concat (take (Suc n) xs))"
      unfolding a_def by (rule concat_take_Suc [OF n(1), symmetric])
    finally show ?case .
  qed
  from this [of "length xs"] assms(1) show ?thesis by simp
qed

lemma plan_fast:
  assumes "plan w0 sz smem = (True, b)"
  shows "sz \<le> b"
  using assms by (auto simp add: plan_def split: if_splits)

lemma init_plans:
  assumes "init rt ty g qs data center = Inr (g', st)" "d < length qs" "fast_kernel st ! d"
  shows "length data \<le> wgs st ! d"
proof -
  from init_Inr [OF assms(1)] obtain plans where
    p: "init_devices rt ty (length data) g qs = Inr (g', plans)"
       "fast_kernel st = map fst plans" "wgs st = map snd plans"
    by blast
  from init_devices_spec [OF p(1)] assms(2) obtain smem where
    m: "plans ! d = plan (wgsize g' ty (queue_context (qs ! d))) (length data) smem"
       "length plans = length qs"
    by blast
  have "plans ! d = (fast_kernel st ! d, wgs st ! d)" using p(2,3) m(2) assms(2) by simp
  with assms(3) m(1) have "plan (wgsize g' ty (queue_context (qs ! d))) (length data) smem = (True, wgs st ! d)"
    by simp
  then show ?thesis by (rule plan_fast)
qed

lemma same_shape_offsets:
  assumes "length y = length x" "\<And>d. d < length x \<Longrightarrow> length (y ! d) = length (x ! d)" "n \<le> length x"
  shows "length (concat (take n y)) = length (concat (take n x))"
  using assms(3)
proof (induction n)
  case 0
  then show ?case by simp
next
  case (Suc n)
  then have n: "n < length x" "n < length y" using assms(1) by simp_all
  from Suc have IH: "length (concat (take n y)) = length (concat (take n x))" by simp
  show ?case unfolding concat_take_Suc [OF n(1)] concat_take_Suc [OF n(2)] IH assms(2) [OF n(1)] ..
qed

text \<open>
  What a convolution with a constructed filter returns: the blend of the prior output
  with the pure clamped convolution of the input taken as a whole.
\<close>

lemma convolve_spec:
  fixes x y :: "'a::comm_ring_1 list list"
  assumes i: "init rt ty g qs w c = Inr (g', st)"
      and shape: "length x = length qs" "length y = length qs"
                 "\<And>d. d < length qs \<Longrightarrow> length (y ! d) = length (x ! d)"
      and fit: "\<And>d. d < length qs \<Longrightarrow> length w - 1 \<le> length (x ! d)"
      and wg: "\<And>d. d < length qs \<Longrightarrow> 0 < wgs st ! d"
      and stg: "\<And>d. d < length qs \<Longrightarrow> fast_kernel st ! d \<Longrightarrow> staged (length (x ! d)) (wgs st ! d) (int c)"
  shows "\<exists>st' y'. convolve st x y alpha beta = Inr (st', y') \<and> length y' = length qs
           \<and> (\<forall>d<length qs. length (y' ! d) = length (x ! d))
           \<and> concat y' = map (\<lambda>i. (if alpha \<noteq> 0 then alpha * concat y ! i else 0)
                                     + beta * convolve_pure w c (concat x) ! i) [0..<length (concat x)]"
proof -
  define r where "r = length w - c - 1"
  from init_Inr [OF i] have f:
    "c < length w" "queue st = qs" "s st = map (\<lambda>q. w) qs" "lhalo st = int c"
    "rhalo st = int (length w) - int c - 1"
    "hbuf st = replicate (length qs * (length w - 1)) 0"
    "dbuf st = map (\<lambda>q. replicate (length w - 1) None) qs"
    by blast+
  have lw: "length w = c + r + 1" "length w - 1 = r + c" "length w - 1 = c + r"
    using f(1) by (simp_all add: r_def)
  have a1: "lhalo st = int c" by (rule f(4))
  have a2: "rhalo st = int r" unfolding f(5) lw(1) by simp
  have a3: "length x = length (queue st)" "length y = length (queue st)" unfolding f(2) by (rule shape(1,2))+
  have a4: "s st ! d = w" if "d < length (queue st)" for d using that unfolding f(2,3) by simp
  have a5: "length (hbuf st) = length (queue st) * (r + c)" unfolding f(2,6) lw(2) by simp
  have a6: "length (dbuf st) = length (queue st)" unfolding f(2,7) by simp
  have a7: "length (dbuf st ! d) = c + r" if "d < length (queue st)" for d
    using that unfolding f(2,7) lw(3) by simp
  have a8: "0 < wgs st ! d" if "d < length (queue st)" for d using that unfolding f(2) by (rule wg)
  have a9: "c + r + 1 \<le> wgs st ! d" if "d < length (queue st)" "fast_kernel st ! d" for d
    using init_plans [OF i _ that(2)] that(1) unfolding f(2) lw(1) by simp
  have a10: "staged (length (x ! d)) (wgs st ! d) (int c)" if "d < length (queue st)" "fast_kernel st ! d" for d
    using that unfolding f(2) by (rule stg)
  have a11: "length (y ! d) = length (x ! d)" if "d < length (queue st)" for d
    using that unfolding f(2) by (rule shape(3))
  have a12: "c + r \<le> length (x ! d)" if "d < length (queue st)" for d
    using that unfolding f(2) lw(3) [symmetric] by (rule fit)
  from convolve_devices [OF a1 a2 a3 a4 lw(1) a5 a6 a7 a8 a9 a10 a11 a12, of alpha beta]
  obtain st' y' where run: "convolve st x y alpha beta = Inr (st', y')" and len: "length y' = length qs"
    and dev: "\<And>d. d < length qs \<Longrightarrow> length (y' ! d) = length (x ! d)"
    and val: "\<And>d i. d < length qs \<Longrightarrow> i < length (x ! d)
          \<Longrightarrow> y' ! d ! i = (if alpha \<noteq> 0 then alpha * y ! d ! i else 0)
                      + beta * taps (\<lambda>j. True) (neighbour x d) (int c) (int r) w (int i)"
    unfolding f(2) by blast
  define F where "F p = (if alpha \<noteq> 0 then alpha * concat y ! p else 0)
                                     + beta * convolve_pure w c (concat x) ! p" for p
  have "concat y' = map F [0..<length (concat x)]"
  proof (rule concat_pointwise)
    show "length y' = length x" using len shape(1) by simp
  next
    fix d assume "d < length x"
    then show "length (y' ! d) = length (x ! d)" using dev shape(1) by simp
  next
    fix d i assume d: "d < length x" and ii: "i < length (x ! d)"
    from d have dq: "d < length qs" using shape(1) by simp
    have dy: "d < length y" using dq shape(2) by simp
    have iy: "i < length (y ! d)" using ii shape(3) [OF dq] by simp
    have sh: "length y = length x" using shape(1,2) by simp
    have sh2: "length (y ! e) = length (x ! e)" if "e < length x" for e
      using that shape(1) shape(3) by simp
    have off: "length (concat (take d y)) = length (concat (take d x))"
      by (rule same_shape_offsets [OF sh sh2]) (use d in simp_all)
    have yv: "concat y ! (length (concat (take d x)) + i) = y ! d ! i"
      using concat_nth(2) [OF dy iy] unfolding off .
    have fl: "c \<le> length (x ! (d - 1))" if "0 < d"
    proof -
      have "d - 1 < length qs" using dq by simp
      from fit [OF this] show ?thesis unfolding lw(3) by simp
    qed
    have fr: "r \<le> length (x ! (d + 1))" if "d + 1 < length x"
    proof -
      have "d + 1 < length qs" using that shape(1) by simp
      from fit [OF this] show ?thesis unfolding lw(3) by simp
    qed
    have pv: "convolve_pure w c (concat x) ! (length (concat (take d x)) + i)
           = taps (\<lambda>j. True) (neighbour x d) (int c) (int r) w (int i)"
      by (rule convolve_pure_taps [OF d ii lw(1) fl fr])
    show "y' ! d ! i = F (length (concat (take d x)) + i)"
      unfolding F_def yv pv by (rule val [OF dq ii])
  qed
  with run len dev show ?thesis unfolding F_def by blast
qed

section \<open>Example filters\<close>

lemma replicate_2: "replicate 2 v = [v, v]"
  by (simp add: numeral_2_eq_2)

lemma replicate_4: "replicate 4 v = [v, v, v, v]"
  by (simp add: numeral_eq_Suc)

lemma example_init_1:
  "\<exists>g'. init (example_rt 64 1024) example_type process_start [example_queue 0] [1, - 2, 1 :: int] 1
     = Inr (g', \<lparr>queue = [example_queue 0], squeue = [Some (example_queue 0)], hbuf = [0, 0],
                 dbuf = [[None, None]], s = [[1, - 2, 1]], lhalo = 1, rhalo = 1,
                 fast_kernel = [True], wgs = [8]\<rparr>)"
  by (simp add: init_def compile_def build_sources_def get_compile_options_def get_def at_def smem_of_def
     kernel_workgroup_size_def example_rt_def example_type_def example_queue_def process_start_def
     halve_above_1024 plan_def shrink.simps replicate_2 replicate_4)

lemma halve_above_4: "halve_above 1024 4 = 4"
  by (simp add: halve_above.simps)

lemma example_init_2:
  "\<exists>g'. init (example_rt 64 4) example_type process_start [example_queue 0, example_queue 1] [1, 1, 1 :: int] 2
     = Inr (g', \<lparr>queue = [example_queue 0, example_queue 1],
                 squeue = [Some (example_queue 0), Some (example_queue 1)], hbuf = [0, 0, 0, 0],
                 dbuf = [[None, None], [None, None]], s = [[1, 1, 1], [1, 1, 1]], lhalo = 2, rhalo = 0,
                 fast_kernel = [True, True], wgs = [4, 4]\<rparr>)"
  by (simp add: init_def compile_def build_sources_def get_compile_options_def get_def at_def smem_of_def
     kernel_workgroup_size_def example_rt_def example_type_def example_queue_def process_start_def
     halve_above_4 plan_def shrink.simps replicate_2 replicate_4)

lemma example_init_3:
  "\<exists>g'. init (example_rt 64 4) example_type process_start [example_queue 0] [1, 1, 1 :: int] 2
     = Inr (g', \<lparr>queue = [example_queue 0],
                 squeue = [Some (example_queue 0)], hbuf = [0, 0],
                 dbuf = [[None, None]], s = [[1, 1, 1]], lhalo = 2, rhalo = 0,
                 fast_kernel = [True], wgs = [4]\<rparr>)"
  by (simp add: init_def compile_def build_sources_def get_compile_options_def get_def at_def smem_of_def
     kernel_workgroup_size_def example_rt_def example_type_def example_queue_def process_start_def
     halve_above_4 plan_def shrink.simps replicate_2 replicate_4)

lemma staged_one: "staged n b 1"
  unfolding staged_def by (cases "n mod b = 0") simp_all

section \<open>The convolution as a whole\<close>

text \<open>
  Where the code computes the blend. Take a filter constructed from the weights \<open>w\<close>
  and the center \<open>c\<close>, an input \<open>x\<close> and a prior output \<open>y\<close> partitioned alike over its
  devices, every partition at least as long as the two halos together, every device
  with a nonzero work-group size, and every device that runs the fast kernel with its
  partition staged completely. Then the convolution returns, and the new output taken
  as a whole is, element for element, \<open>alpha\<close> times the prior output (nothing of it
  when \<open>alpha\<close> is zero) plus \<open>beta\<close> times the pure clamped convolution of the whole
  input.
\<close>

theorem convolve_blend:
  fixes x y :: "'a::comm_ring_1 list list"
  assumes "init rt ty g qs w c = Inr (g', st)"
      and "length x = length qs" "length y = length qs"
      and "\<forall>d<length qs. length (y ! d) = length (x ! d)
              \<and> length w - 1 \<le> length (x ! d)
              \<and> 0 < wgs st ! d
              \<and> (fast_kernel st ! d \<longrightarrow> staged (length (x ! d)) (wgs st ! d) (int c))"
  shows "\<exists>st' y'. convolve st x y alpha beta = Inr (st', y') \<and> map length y' = map length x
           \<and> concat y' = map (\<lambda>i. (if alpha \<noteq> 0 then alpha * concat y ! i else 0)
                                     + beta * convolve_pure w c (concat x) ! i) [0..<length (concat x)]"
proof -
  have a: "length (y ! d) = length (x ! d)" if "d < length qs" for d using assms(4) that by blast
  have b: "length w - 1 \<le> length (x ! d)" if "d < length qs" for d
    using assms(4) that by blast
  have c: "0 < wgs st ! d" if "d < length qs" for d using assms(4) that by blast
  have d: "staged (length (x ! d)) (wgs st ! d) (int c)" if "d < length qs" "fast_kernel st ! d" for d
    using assms(4) that by blast
  from convolve_spec [OF assms(1,2,3) a b c d, of alpha beta]
  obtain st' y' where r: "convolve st x y alpha beta = Inr (st', y')" "length y' = length qs"
    "\<forall>d<length qs. length (y' ! d) = length (x ! d)"
    "concat y' = map (\<lambda>i. (if alpha \<noteq> 0 then alpha * concat y ! i else 0)
                                     + beta * convolve_pure w c (concat x) ! i) [0..<length (concat x)]"
    by blast
  have "map length y' = map length x"
    by (rule nth_equalityI) (use r(2,3) assms(2) in simp_all)
  with r(1,4) show ?thesis by blast
qed

theorem convolve_blend_witness:
  "\<exists>g' st st1 y1 st0 y0.
      init (example_rt 64 1024) example_type process_start [example_queue 0] [1, - 2, 1 :: int] 1 = Inr (g', st)
    \<and> convolve st [[1, 2, 4, 8, 16]] [[10, 10, 10, 10, 10]] 1 2 = Inr (st1, y1)
    \<and> concat y1 = [12, 12, 14, 18, - 6]
    \<and> convolve st [[1, 2, 4, 8, 16]] [[10, 10, 10, 10, 10]] 0 2 = Inr (st0, y0)
    \<and> concat y0 = [2, 2, 4, 8, - 16]"
proof -
  define st :: "int stencil" where
    "st = \<lparr>queue = [example_queue 0], squeue = [Some (example_queue 0)], hbuf = [0, 0],
                 dbuf = [[None, None]], s = [[1, - 2, 1]], lhalo = 1, rhalo = 1,
                 fast_kernel = [True], wgs = [8]\<rparr>"
  from example_init_1 obtain g' where
    i: "init (example_rt 64 1024) example_type process_start [example_queue 0] [1, - 2, 1 :: int] 1 = Inr (g', st)"
    unfolding st_def by blast
  have l: "length [[1, 2, 4, 8, 16 :: int]] = length [example_queue 0]"
          "length [[10, 10, 10, 10, 10 :: int]] = length [example_queue 0]" by simp_all
  have h: "\<forall>d<length [example_queue 0]. length ([[10, 10, 10, 10, 10 :: int]] ! d) = length ([[1, 2, 4, 8, 16 :: int]] ! d)
              \<and> length [1, - 2, 1 :: int] - 1 \<le> length ([[1, 2, 4, 8, 16 :: int]] ! d)
              \<and> 0 < wgs st ! d
              \<and> (fast_kernel st ! d \<longrightarrow> staged (length ([[1, 2, 4, 8, 16 :: int]] ! d)) (wgs st ! d) (int 1))"
    by (simp add: st_def staged_def)
  have e1: "map (\<lambda>i. (if (1::int) \<noteq> 0 then 1 * concat [[10, 10, 10, 10, 10]] ! i else 0)
                      + 2 * convolve_pure [1, - 2, 1] 1 (concat [[1, 2, 4, 8, 16]]) ! i)
              [0..<length (concat [[1, 2, 4, 8, 16 :: int]])] = [12, 12, 14, 18, - 6 :: int]"
    by code_simp
  have e0: "map (\<lambda>i. (if (0::int) \<noteq> 0 then 0 * concat [[10, 10, 10, 10, 10]] ! i else 0)
                      + 2 * convolve_pure [1, - 2, 1] 1 (concat [[1, 2, 4, 8, 16]]) ! i)
              [0..<length (concat [[1, 2, 4, 8, 16 :: int]])] = [2, 2, 4, 8, - 16 :: int]"
    by code_simp
  from convolve_blend [OF i l h, of 1 2] obtain st1 y1 where
    r1: "convolve st [[1, 2, 4, 8, 16]] [[10, 10, 10, 10, 10]] 1 2 = Inr (st1, y1)"
        "concat y1 = [12, 12, 14, 18, - 6]"
    unfolding e1 by blast
  from convolve_blend [OF i l h, of 0 2] obtain st0 y0 where
    r0: "convolve st [[1, 2, 4, 8, 16]] [[10, 10, 10, 10, 10]] 0 2 = Inr (st0, y0)"
        "concat y0 = [2, 2, 4, 8, - 16]"
    unfolding e0 by blast
  from i r1 r0 show ?thesis by blast
qed

text \<open>
  Claim C6. On a single device that allows work-groups of 4 items, the filter with the
  weights \<open>[1, 1, 1]\<close> and the center 2 convolves the input \<open>[1, 2, 3, 4, 5]\<close> into an
  output that holds 10 everywhere, with \<open>alpha = 1\<close> and \<open>beta = 1\<close>. The prior output
  plus the pure clamped convolution is \<open>[13, 14, 16, 19, 22]\<close>. The fast kernel does not
  compute it: in its second work-group only the first work-item owns an element, and
  the sum for that element reads \<^verbatim>\<open>xbuf[-1]\<close>, which no work-item of the group wrote.
  On a device that allows work-groups of 1024 items, where the five elements fit one
  group, the same call returns \<open>[13, 14, 16, 19, 22]\<close>.
\<close>

theorem blend_divergence:
  "(\<exists>g' st. init (example_rt 64 4) example_type process_start [example_queue 0] [1, 1, 1 :: int] 2 = Inr (g', st)
           \<and> fast_kernel st = [True] \<and> wgs st = [4]
           \<and> convolve st [[1, 2, 3, 4, 5]] [[10, 10, 10, 10, 10]] 1 1 = Inl Uninitialized)
 \<and> (\<exists>g' st st'. init (example_rt 64 1024) example_type process_start [example_queue 0] [1, 1, 1 :: int] 2
                    = Inr (g', st)
           \<and> convolve st [[1, 2, 3, 4, 5]] [[10, 10, 10, 10, 10]] 1 1 = Inr (st', [[13, 14, 16, 19, 22]]))
 \<and> map (\<lambda>i. [10, 10, 10, 10, 10] ! i + 1 * convolve_pure [1, 1, 1] 2 [1, 2, 3, 4, 5] ! i) [0..<5]
      = [13, 14, 16, 19, 22 :: int]"
proof -
  define st4 :: "int stencil" where
    "st4 = \<lparr>queue = [example_queue 0],
                 squeue = [Some (example_queue 0)], hbuf = [0, 0],
                 dbuf = [[None, None]], s = [[1, 1, 1]], lhalo = 2, rhalo = 0,
                 fast_kernel = [True], wgs = [4]\<rparr>"
  define st8 :: "int stencil" where
    "st8 = \<lparr>queue = [example_queue 0],
                 squeue = [Some (example_queue 0)], hbuf = [0, 0],
                 dbuf = [[None, None]], s = [[1, 1, 1]], lhalo = 2, rhalo = 0,
                 fast_kernel = [True], wgs = [8]\<rparr>"
  from example_init_3 obtain g4 where
    i4: "init (example_rt 64 4) example_type process_start [example_queue 0] [1, 1, 1 :: int] 2 = Inr (g4, st4)"
    unfolding st4_def by blast
  have "\<exists>g'. init (example_rt 64 1024) example_type process_start [example_queue 0] [1, 1, 1 :: int] 2
           = Inr (g', st8)"
    unfolding st8_def
    by (simp add: init_def compile_def build_sources_def get_compile_options_def get_def at_def smem_of_def
     kernel_workgroup_size_def example_rt_def example_type_def example_queue_def process_start_def
     halve_above_1024 plan_def shrink.simps replicate_2)
  then obtain g8 where
    i8: "init (example_rt 64 1024) example_type process_start [example_queue 0] [1, 1, 1 :: int] 2 = Inr (g8, st8)"
    by blast
  have c4: "convolve st4 [[1, 2, 3, 4, 5]] [[10, 10, 10, 10, 10]] 1 1 = Inl Uninitialized"
    unfolding st4_def by code_simp
  have c8: "convolve st8 [[1, 2, 3, 4, 5]] [[10, 10, 10, 10, 10]] 1 1 = Inr (st8, [[13, 14, 16, 19, 22]])"
    unfolding st8_def by code_simp
  have f: "fast_kernel st4 = [True]" "wgs st4 = [4]" by (simp_all add: st4_def)
  have p: "map (\<lambda>i. [10, 10, 10, 10, 10] ! i + 1 * convolve_pure [1, 1, 1] 2 [1, 2, 3, 4, 5] ! i) [0..<5]
      = [13, 14, 16, 19, 22 :: int]"
    by code_simp
  from i4 f c4 have one: "\<exists>g' st. init (example_rt 64 4) example_type process_start [example_queue 0] [1, 1, 1 :: int] 2
             = Inr (g', st)
           \<and> fast_kernel st = [True] \<and> wgs st = [4]
           \<and> convolve st [[1, 2, 3, 4, 5]] [[10, 10, 10, 10, 10]] 1 1 = Inl Uninitialized"
    by blast
  from i8 c8 have two: "\<exists>g' st st'. init (example_rt 64 1024) example_type process_start [example_queue 0]
                    [1, 1, 1 :: int] 2 = Inr (g', st)
           \<and> convolve st [[1, 2, 3, 4, 5]] [[10, 10, 10, 10, 10]] 1 1 = Inr (st', [[13, 14, 16, 19, 22]])"
    by blast
  from one two p show ?thesis by (intro conjI)
qed

text \<open>
  Claim C2. On a single device, the filter with the weights \<open>[1, -2, 1]\<close> and the
  center 1 turns the input \<open>[1, 2, 4, 8, 16]\<close>, with \<open>alpha = 0\<close> and \<open>beta = 1\<close>, into
  \<open>[1, 1, 2, 4, -8]\<close>, whatever the output held before: 1, 2 and 4 at the indices 1, 2
  and 3, and at the indices 0 and 4 the same formula with the tap outside the input
  replaced by the first and the last element.
\<close>

theorem laplacian_example:
  assumes "init rt ty g [q] [1, - 2, 1 :: int] 1 = Inr (g', st)" and "0 < wgs st ! 0" and "length y0 = 5"
  shows "\<exists>st'. convolve st [[1, 2, 4, 8, 16]] [y0] 0 1 = Inr (st', [[1, 1, 2, 4, - 8]])"
proof -
  have l: "length [[1, 2, 4, 8, 16 :: int]] = length [q]" "length [y0] = length [q]" by simp_all
  have a: "length ([y0] ! d) = length ([[1, 2, 4, 8, 16 :: int]] ! d)" if "d < length [q]" for d
    using that assms(3) by simp
  have b: "length [1, - 2, 1 :: int] - 1 \<le> length ([[1, 2, 4, 8, 16 :: int]] ! d)" if "d < length [q]" for d
    using that by simp
  have c: "0 < wgs st ! d" if "d < length [q]" for d using that assms(2) by simp
  have d: "staged (length ([[1, 2, 4, 8, 16 :: int]] ! d)) (wgs st ! d) (int 1)" for d
    by (simp add: staged_one)
  have e: "map (\<lambda>i. (if (0::int) \<noteq> 0 then 0 * concat [y0] ! i else 0)
                      + 1 * convolve_pure [1, - 2, 1] 1 (concat [[1, 2, 4, 8, 16]]) ! i)
              [0..<length (concat [[1, 2, 4, 8, 16 :: int]])]
         = map (\<lambda>i. convolve_pure [1, - 2, 1] 1 (concat [[1, 2, 4, 8, 16 :: int]]) ! i)
              [0..<length (concat [[1, 2, 4, 8, 16 :: int]])]"
    by simp
  have p: "map (\<lambda>i. convolve_pure [1, - 2, 1] 1 (concat [[1, 2, 4, 8, 16 :: int]]) ! i)
              [0..<length (concat [[1, 2, 4, 8, 16 :: int]])] = [1, 1, 2, 4, - 8 :: int]"
    by code_simp
  from convolve_spec [OF assms(1) l a b c d, of 0 1] obtain st' y' where
    r: "convolve st [[1, 2, 4, 8, 16]] [y0] 0 1 = Inr (st', y')" "length y' = length [q]"
       "concat y' = [1, 1, 2, 4, - 8]"
    unfolding e p by blast
  from r(2) obtain v where "y' = [v]" by (cases y') auto
  with r(3) have "y' = [[1, 1, 2, 4, - 8]]" by simp
  with r(1) show ?thesis by blast
qed

theorem laplacian_example_witness:
  "\<exists>g' st st'.
      init (example_rt 64 1024) example_type process_start [example_queue 0] [1, - 2, 1 :: int] 1 = Inr (g', st)
    \<and> 0 < wgs st ! 0
    \<and> convolve st [[1, 2, 4, 8, 16]] [[7, 7, 7, 7, 7]] 0 1 = Inr (st', [[1, 1, 2, 4, - 8]])"
proof -
  from example_init obtain g' and st :: "int stencil" where
    i: "init (example_rt 64 1024) example_type process_start [example_queue 0] [1, - 2, 1 :: int] 1 = Inr (g', st)"
       "wgs st = [8]"
    by blast
  have w: "0 < wgs st ! 0" by (simp add: i(2))
  have l: "length [7, 7, 7, 7, 7 :: int] = 5" by simp
  from laplacian_example [OF i(1) w l] i(1) w show ?thesis by blast
qed

text \<open>
  The output at the index 1 is the value of \<open>1 * 1 - 2 * 2 + 1 * 4\<close>, which is 1 and
  not -1.
\<close>

theorem laplacian_example_counterexample:
  "\<exists>g' st st' y'.
      init (example_rt 64 1024) example_type process_start [example_queue 0] [1, - 2, 1 :: int] 1 = Inr (g', st)
    \<and> convolve st [[1, 2, 4, 8, 16]] [[0, 0, 0, 0, 0]] 0 1 = Inr (st', y')
    \<and> y' ! 0 ! 1 = 1 * 1 - 2 * 2 + 1 * 4 \<and> y' ! 0 ! 1 \<noteq> - 1"
proof -
  have "map_sum id snd (convolve \<lparr>queue = [example_queue 0], squeue = [Some (example_queue 0)], hbuf = [0, 0],
                 dbuf = [[None, None]], s = [[1, - 2, 1]], lhalo = 1, rhalo = 1,
                 fast_kernel = [True], wgs = [8]\<rparr> [[1, 2, 4, 8, 16 :: int]] [[0, 0, 0, 0, 0]] 0 1)
          = Inr [[1, 1, 2, 4, - 8]]"
    by code_simp
  then have "\<exists>st'. convolve \<lparr>queue = [example_queue 0], squeue = [Some (example_queue 0)], hbuf = [0, 0],
                 dbuf = [[None, None]], s = [[1, - 2, 1]], lhalo = 1, rhalo = 1,
                 fast_kernel = [True], wgs = [8]\<rparr> [[1, 2, 4, 8, 16 :: int]] [[0, 0, 0, 0, 0]] 0 1
          = Inr (st', [[1, 1, 2, 4, - 8]])"
    by (cases "convolve \<lparr>queue = [example_queue 0], squeue = [Some (example_queue 0)], hbuf = [0, 0],
                 dbuf = [[None, None]], s = [[1, - 2, 1]], lhalo = 1, rhalo = 1,
                 fast_kernel = [True], wgs = [8]\<rparr> [[1, 2, 4, 8, 16 :: int]] [[0, 0, 0, 0, 0]] 0 1") auto
  moreover have "[[1, 1, 2, 4, - 8 :: int]] ! 0 ! 1 = 1 * 1 - 2 * 2 + 1 * 4
               \<and> [[1, 1, 2, 4, - 8 :: int]] ! 0 ! 1 \<noteq> - 1" by simp
  ultimately show ?thesis using example_init_1 by blast
qed

section \<open>One device and many\<close>

lemma example_init_4:
  "\<exists>g'. init (example_rt 64 4) example_type process_start [example_queue 0, example_queue 1] [1, 1, 1 :: int] 0
     = Inr (g', \<lparr>queue = [example_queue 0, example_queue 1],
                 squeue = [Some (example_queue 0), Some (example_queue 1)], hbuf = [0, 0, 0, 0],
                 dbuf = [[None, None], [None, None]], s = [[1, 1, 1], [1, 1, 1]], lhalo = 0, rhalo = 2,
                 fast_kernel = [True, True], wgs = [4, 4]\<rparr>)"
  by (simp add: init_def compile_def build_sources_def get_compile_options_def get_def at_def smem_of_def
     kernel_workgroup_size_def example_rt_def example_type_def example_queue_def process_start_def
     halve_above_4 plan_def shrink.simps replicate_2 replicate_4)

text \<open>
  Claim C1. The filter with the weights \<open>[1, 1, 1]\<close> and the center 2, on devices that
  allow work-groups of 4 items, gets the input \<open>[1, \<dots>, 8]\<close>. On a single device the
  convolution returns \<open>[3, 4, 6, 9, 12, 15, 18, 21]\<close>. With the input split into
  partitions of 5 and 3 elements, both longer than the halo of 2, the fast kernel on
  the first device reads a local element that no work-item wrote, and the convolution
  does not return the output of the single device.
\<close>

theorem partition_divergence:
  "(\<exists>g' st st'. init (example_rt 64 4) example_type process_start [example_queue 0] [1, 1, 1 :: int] 2
                    = Inr (g', st)
         \<and> convolve st [[1, 2, 3, 4, 5, 6, 7, 8]] [[0, 0, 0, 0, 0, 0, 0, 0]] 0 1
             = Inr (st', [[3, 4, 6, 9, 12, 15, 18, 21]]))
 \<and> (\<exists>g' st. init (example_rt 64 4) example_type process_start [example_queue 0, example_queue 1]
                  [1, 1, 1 :: int] 2 = Inr (g', st)
         \<and> convolve st [[1, 2, 3, 4, 5], [6, 7, 8]] [[0, 0, 0, 0, 0], [0, 0, 0]] 0 1 = Inl Uninitialized)"
proof -
  have "convolve \<lparr>queue = [example_queue 0],
                 squeue = [Some (example_queue 0)], hbuf = [0, 0],
                 dbuf = [[None, None]], s = [[1, 1, 1]], lhalo = 2, rhalo = 0,
                 fast_kernel = [True], wgs = [4]\<rparr> [[1, 2, 3, 4, 5, 6, 7, 8 :: int]]
                 [[0, 0, 0, 0, 0, 0, 0, 0]] 0 1
        = Inr (\<lparr>queue = [example_queue 0],
                 squeue = [Some (example_queue 0)], hbuf = [0, 0],
                 dbuf = [[None, None]], s = [[1, 1, 1]], lhalo = 2, rhalo = 0,
                 fast_kernel = [True], wgs = [4]\<rparr>, [[3, 4, 6, 9, 12, 15, 18, 21]])"
    by code_simp
  with example_init_3 have one:
    "\<exists>g' st st'. init (example_rt 64 4) example_type process_start [example_queue 0] [1, 1, 1 :: int] 2
                    = Inr (g', st)
         \<and> convolve st [[1, 2, 3, 4, 5, 6, 7, 8]] [[0, 0, 0, 0, 0, 0, 0, 0]] 0 1
             = Inr (st', [[3, 4, 6, 9, 12, 15, 18, 21]])"
    by blast
  have "convolve \<lparr>queue = [example_queue 0, example_queue 1],
                 squeue = [Some (example_queue 0), Some (example_queue 1)], hbuf = [0, 0, 0, 0],
                 dbuf = [[None, None], [None, None]], s = [[1, 1, 1], [1, 1, 1]], lhalo = 2, rhalo = 0,
                 fast_kernel = [True, True], wgs = [4, 4]\<rparr> [[1, 2, 3, 4, 5], [6, 7, 8 :: int]]
                 [[0, 0, 0, 0, 0], [0, 0, 0]] 0 1 = Inl Uninitialized"
    by code_simp
  with example_init_2 have two:
    "\<exists>g' st. init (example_rt 64 4) example_type process_start [example_queue 0, example_queue 1]
                  [1, 1, 1 :: int] 2 = Inr (g', st)
         \<and> convolve st [[1, 2, 3, 4, 5], [6, 7, 8]] [[0, 0, 0, 0, 0], [0, 0, 0]] 0 1 = Inl Uninitialized"
    by blast
  from one two show ?thesis by (rule conjI)
qed

text \<open>
  Where the blend is computed on both sides (every partition at least as long as the
  two halos together, nonzero work-group sizes, complete staging for the fast kernel),
  the partitioned convolution and the convolution on a single device holding the whole
  input return the same output.
\<close>

theorem partition_independent:
  fixes x y :: "'a::comm_ring_1 list list"
  assumes "init rt ty g qs w c = Inr (g', st)"
      and "init rt1 ty1 g1 [q] w c = Inr (g1', st1)"
      and "length x = length qs" "length y = length qs"
      and "\<forall>d<length qs. length (y ! d) = length (x ! d)
              \<and> length w - 1 \<le> length (x ! d)
              \<and> 0 < wgs st ! d
              \<and> (fast_kernel st ! d \<longrightarrow> staged (length (x ! d)) (wgs st ! d) (int c))"
      and "0 < wgs st1 ! 0"
      and "fast_kernel st1 ! 0 \<longrightarrow> staged (length (concat x)) (wgs st1 ! 0) (int c)"
  shows "\<exists>st' y' st1' y1'.
            convolve st x y alpha beta = Inr (st', y')
          \<and> convolve st1 [concat x] [concat y] alpha beta = Inr (st1', y1')
          \<and> concat y' = concat y1'"
proof -
  have a: "length (y ! d) = length (x ! d)" if "d < length qs" for d using assms(5) that by blast
  have b: "length w - 1 \<le> length (x ! d)" if "d < length qs" for d
    using assms(5) that by blast
  have c: "0 < wgs st ! d" if "d < length qs" for d using assms(5) that by blast
  have d: "staged (length (x ! d)) (wgs st ! d) (int c)" if "d < length qs" "fast_kernel st ! d" for d
    using assms(5) that by blast
  from convolve_spec [OF assms(1,3,4) a b c d, of alpha beta]
  obtain st' y' where r: "convolve st x y alpha beta = Inr (st', y')"
    "concat y' = map (\<lambda>i. (if alpha \<noteq> 0 then alpha * concat y ! i else 0)
                                     + beta * convolve_pure w c (concat x) ! i) [0..<length (concat x)]"
    by blast
  from init_Inr [OF assms(1)] have ne: "qs \<noteq> []" by blast
  then have x0: "0 < length qs" by simp
  with assms(3) have "x \<noteq> []" by auto
  then have "x = x ! 0 # tl x" by (cases x) simp_all
  then have "concat x = x ! 0 @ concat (tl x)" by (metis concat.simps(2))
  then have big: "length (x ! 0) \<le> length (concat x)" by simp
  have sh: "length (concat y) = length (concat x)"
    using same_shape_offsets [of y x "length x"] a assms(3,4) by simp
  have l1: "length [concat x] = length [q]" "length [concat y] = length [q]" by simp_all
  have a1: "length ([concat y] ! e) = length ([concat x] ! e)" if "e < length [q]" for e
    using that sh by simp
  have b1: "length w - 1 \<le> length ([concat x] ! e)"
    if "e < length [q]" for e
    using that b [OF x0] big by simp
  have c1: "0 < wgs st1 ! e" if "e < length [q]" for e using that assms(6) by simp
  have d1: "staged (length ([concat x] ! e)) (wgs st1 ! e) (int c)"
    if "e < length [q]" "fast_kernel st1 ! e" for e
    using that assms(7) by simp
  from convolve_spec [OF assms(2) l1 a1 b1 c1 d1, of alpha beta]
  obtain st1' y1' where r1: "convolve st1 [concat x] [concat y] alpha beta = Inr (st1', y1')"
    "concat y1' = map (\<lambda>i. (if alpha \<noteq> 0 then alpha * concat [concat y] ! i else 0)
                          + beta * convolve_pure w c (concat [concat x]) ! i) [0..<length (concat [concat x])]"
    by blast
  have "concat y' = concat y1'" unfolding r(2) r1(2) by simp
  with r(1) r1(1) show ?thesis by blast
qed

lemma example_init_5:
  "\<exists>g'. init (example_rt 64 4) example_type process_start [example_queue 0, example_queue 1] [1, - 2, 1 :: int] 1
     = Inr (g', \<lparr>queue = [example_queue 0, example_queue 1],
                 squeue = [Some (example_queue 0), Some (example_queue 1)], hbuf = [0, 0, 0, 0],
                 dbuf = [[None, None], [None, None]], s = [[1, - 2, 1], [1, - 2, 1]], lhalo = 1, rhalo = 1,
                 fast_kernel = [True, True], wgs = [4, 4]\<rparr>)"
  by (simp add: init_def compile_def build_sources_def get_compile_options_def get_def at_def smem_of_def
     kernel_workgroup_size_def example_rt_def example_type_def example_queue_def process_start_def
     halve_above_4 plan_def shrink.simps replicate_2 replicate_4)

theorem partition_independent_witness:
  "\<exists>g' st g1' st1 st' y' st1' y1'.
      init (example_rt 64 4) example_type process_start [example_queue 0, example_queue 1] [1, - 2, 1 :: int] 1
        = Inr (g', st)
    \<and> init (example_rt 64 1024) example_type process_start [example_queue 0] [1, - 2, 1 :: int] 1 = Inr (g1', st1)
    \<and> convolve st [[1, 2, 4], [8, 16]] [[0, 0, 0], [0, 0]] 0 1 = Inr (st', y')
    \<and> convolve st1 [concat [[1, 2, 4], [8, 16]]] [concat [[0, 0, 0], [0, 0]]] 0 1 = Inr (st1', y1')
    \<and> concat y' = concat y1'"
proof -
  define st :: "int stencil" where
    "st = \<lparr>queue = [example_queue 0, example_queue 1],
                 squeue = [Some (example_queue 0), Some (example_queue 1)], hbuf = [0, 0, 0, 0],
                 dbuf = [[None, None], [None, None]], s = [[1, - 2, 1], [1, - 2, 1]], lhalo = 1, rhalo = 1,
                 fast_kernel = [True, True], wgs = [4, 4]\<rparr>"
  from example_init_5 obtain g' where
    i: "init (example_rt 64 4) example_type process_start [example_queue 0, example_queue 1] [1, - 2, 1 :: int] 1
          = Inr (g', st)"
    unfolding st_def by blast
  from example_init obtain g1' and st1 :: "int stencil" where
    i1: "init (example_rt 64 1024) example_type process_start [example_queue 0] [1, - 2, 1 :: int] 1 = Inr (g1', st1)"
        "wgs st1 = [8]"
    by blast
  have l: "length [[1, 2, 4], [8, 16 :: int]] = length [example_queue 0, example_queue 1]"
          "length [[0, 0, 0], [0, 0 :: int]] = length [example_queue 0, example_queue 1]" by simp_all
  have h: "\<forall>d<length [example_queue 0, example_queue 1].
              length ([[0, 0, 0], [0, 0 :: int]] ! d) = length ([[1, 2, 4], [8, 16 :: int]] ! d)
              \<and> length [1, - 2, 1 :: int] - 1 \<le> length ([[1, 2, 4], [8, 16 :: int]] ! d)
              \<and> 0 < wgs st ! d
              \<and> (fast_kernel st ! d \<longrightarrow> staged (length ([[1, 2, 4], [8, 16 :: int]] ! d)) (wgs st ! d) (int 1))"
    by (simp add: st_def staged_one less_Suc_eq)
  have w1: "0 < wgs st1 ! 0" by (simp add: i1(2))
  have s1: "fast_kernel st1 ! 0 \<longrightarrow> staged (length (concat [[1, 2, 4], [8, 16 :: int]])) (wgs st1 ! 0) (int 1)"
    by (simp add: staged_one)
  from partition_independent [OF i i1(1) l h w1 s1, of 0 1] i i1(1) show ?thesis by blast
qed

section \<open>The halo exchange\<close>











section \<open>The transform of the generalized filter\<close>

text \<open>
  Claim C4. A generalized filter with the single row \<open>[1, -2, 1]\<close> and the center 1
  convolves \<open>[1, 2, 4, 8, 16]\<close> with the transform \<^verbatim>\<open>cos\<close> selected, on a device whose
  \<^verbatim>\<open>sin\<close> adds 100 and whose \<^verbatim>\<open>cos\<close> adds 1000. The row sums are 1, 1, 2, 4 and -8.
  The outputs at the left edge and in the interior are the row sums plus 1000; the
  output at the right edge is the row sum plus 100: there the kernel applied \<^verbatim>\<open>sin\<close>,
  not the selected transform.
\<close>

theorem right_edge_transform:
  "\<exists>st g' st'.
      ginit [example_queue 0] 1 3 1 [1, - 2, 1 :: int] = Inr st
    \<and> gconvolve (example_rt 64 4) example_type example_builtin ''cos'' process_start st
         [[1, 2, 4, 8, 16]] [[0, 0, 0, 0, 0]] 0 1
       = Inr (g', st', [[1001, 1001, 1002, 1004, 92]])
    \<and> example_builtin ''cos'' (- 8) = 992 \<and> example_builtin ''sin'' (- 8) = 92"
proof -
  define st :: "int gstencil" where
    "st = \<lparr>g_queue = [example_queue 0], g_squeue = [Some (example_queue 0)], g_hbuf = [0, 0],
           g_dbuf = [[None, None]], g_S = [[1, - 2, 1]], g_lhalo = 1, g_rhalo = 1, rows = 1, cols = 3\<rparr>"
  have i: "ginit [example_queue 0] 1 3 1 [1, - 2, 1 :: int] = Inr st"
    unfolding st_def by code_simp
  have "map_sum id (snd \<circ> snd)
          (gconvolve (example_rt 64 4) example_type example_builtin ''cos'' process_start st
             [[1, 2, 4, 8, 16]] [[0, 0, 0, 0, 0]] 0 1)
        = Inr [[1001, 1001, 1002, 1004, 92]]"
    unfolding st_def by code_simp
  then obtain g' st' where
    c: "gconvolve (example_rt 64 4) example_type example_builtin ''cos'' process_start st
         [[1, 2, 4, 8, 16]] [[0, 0, 0, 0, 0]] 0 1
       = Inr (g', st', [[1001, 1001, 1002, 1004, 92]])"
    by (cases "gconvolve (example_rt 64 4) example_type example_builtin ''cos'' process_start st
         [[1, 2, 4, 8, 16]] [[0, 0, 0, 0, 0]] 0 1") auto
  have b: "example_builtin ''cos'' (- 8) = 992" "example_builtin ''sin'' (- 8) = 92"
    by (simp_all add: example_builtin_def)
  from i c b show ?thesis by blast
qed

theorem right_edge_transform_witness:
  "\<exists>st g' st' y'.
      ginit [example_queue 0] 1 3 1 [1, - 2, 1 :: int] = Inr st
    \<and> gconvolve (example_rt 64 4) example_type example_builtin ''cos'' process_start st
         [[1, 2, 4, 8, 16]] [[0, 0, 0, 0, 0]] 0 1 = Inr (g', st', y')
    \<and> y' ! 0 ! 3 = 4 + 1000 \<and> y' ! 0 ! 4 = - 8 + 100"
proof -
  from right_edge_transform obtain st g' st' where
    r: "ginit [example_queue 0] 1 3 1 [1, - 2, 1 :: int] = Inr st"
       "gconvolve (example_rt 64 4) example_type example_builtin ''cos'' process_start st
         [[1, 2, 4, 8, 16]] [[0, 0, 0, 0, 0]] 0 1
       = Inr (g', st', [[1001, 1001, 1002, 1004, 92]])"
    by blast
  have "[[1001, 1001, 1002, 1004, 92 :: int]] ! 0 ! 3 = 4 + 1000"
       "[[1001, 1001, 1002, 1004, 92 :: int]] ! 0 ! 4 = - 8 + 100" by simp_all
  with r show ?thesis by blast
qed

section \<open>The program header\<close>

lemma compile_program:
  assumes "compile rt ty g q = Inr g1" and "\<not> compiled g ty (queue_context q)"
  shows "\<exists>dev0 devs. context_devices rt (queue_context q) = dev0 # devs
           \<and> conv_local g1 ty (queue_context q)
               = Some ((stencil_source ty, '' '' @ fst (get (compile_options g) dev0)), ''conv_local'')"
proof -
  from assms obtain dev0 devs where d: "context_devices rt (queue_context q) = dev0 # devs"
    by (cases "context_devices rt (queue_context q)")
       (auto simp add: compile_def build_sources_def split: if_splits)
  from assms d have "conv_local g1 ty (queue_context q)
               = Some ((stencil_source ty, '' '' @ fst (get (compile_options g) dev0)), ''conv_local'')"
    by (auto simp add: compile_def build_sources_def get_compile_options_def split: if_splits prod.splits)
  with d show ?thesis by blast
qed

lemma gcompile_program:
  assumes "gcompile rt ty func g q = Inr g1" and "\<not> g_compiled g ty func (queue_context q)"
  shows "\<exists>dev0 devs. context_devices rt (queue_context q) = dev0 # devs
           \<and> g_conv_local g1 ty func (queue_context q)
               = Some ((gstencil_source ty func, '' '' @ fst (get (compile_options g) dev0)), ''conv_local'')"
proof -
  from assms obtain dev0 devs where d: "context_devices rt (queue_context q) = dev0 # devs"
    by (cases "context_devices rt (queue_context q)")
       (auto simp add: gcompile_def build_sources_def split: if_splits)
  from assms d have "g_conv_local g1 ty func (queue_context q)
               = Some ((gstencil_source ty func, '' '' @ fst (get (compile_options g) dev0)), ''conv_local'')"
    by (auto simp add: gcompile_def build_sources_def get_compile_options_def split: if_splits prod.splits)
  with d show ?thesis by blast
qed

text \<open>
  Claim C7. When the construction of a plain filter, or a convolution with a
  generalized filter, compiles for a cache key, the program text is
  \<^verbatim>\<open>stencil_source\<close> of the element type, or \<^verbatim>\<open>gstencil_source\<close> of the element type
  and the transform: it begins with the character \<open>1\<close>, where the header was to stand,
  and the stack of program headers is neither read nor changed. The program is built
  with a blank and the top of the compile-option stack of the first device of the
  context.
\<close>

theorem header_not_applied:
  "(compile rt ty g q = Inr g1 \<and> \<not> compiled g ty (queue_context q) \<longrightarrow>
      (\<exists>dev0 devs. context_devices rt (queue_context q) = dev0 # devs
           \<and> conv_local g1 ty (queue_context q)
               = Some ((stencil_source ty, '' '' @ fst (get (compile_options g) dev0)), ''conv_local''))
      \<and> program_header g1 = program_header g)
 \<and> (gcompile rt ty func g q = Inr g2 \<and> \<not> g_compiled g ty func (queue_context q) \<longrightarrow>
      (\<exists>dev0 devs. context_devices rt (queue_context q) = dev0 # devs
           \<and> g_conv_local g2 ty func (queue_context q)
               = Some ((gstencil_source ty func, '' '' @ fst (get (compile_options g) dev0)), ''conv_local''))
      \<and> program_header g2 = program_header g)
 \<and> take 9 (stencil_source ty) = ''1typedef ''
 \<and> take 9 (gstencil_source ty func) = ''1typedef ''"
proof (intro conjI impI)
  assume a: "compile rt ty g q = Inr g1 \<and> \<not> compiled g ty (queue_context q)"
  then show "\<exists>dev0 devs. context_devices rt (queue_context q) = dev0 # devs
           \<and> conv_local g1 ty (queue_context q)
               = Some ((stencil_source ty, '' '' @ fst (get (compile_options g) dev0)), ''conv_local'')"
    using compile_program by blast
  from a compile_frame show "program_header g1 = program_header g" by blast
next
  assume a: "gcompile rt ty func g q = Inr g2 \<and> \<not> g_compiled g ty func (queue_context q)"
  then show "\<exists>dev0 devs. context_devices rt (queue_context q) = dev0 # devs
           \<and> g_conv_local g2 ty func (queue_context q)
               = Some ((gstencil_source ty func, '' '' @ fst (get (compile_options g) dev0)), ''conv_local'')"
    using gcompile_program by blast
  from a gcompile_frame show "program_header g2 = program_header g" by blast
next
  show "take 9 (stencil_source ty) = ''1typedef ''" by (simp add: stencil_source_def)
  show "take 9 (gstencil_source ty func) = ''1typedef ''" by (simp add: gstencil_source_def)
qed

theorem header_not_applied_witness:
  "\<exists>g1 g2.
      compile (example_rt 64 1024) example_type
           (process_start\<lparr>program_header := push (program_header process_start) 0 ''#define N 4'',
                           compile_options := push (compile_options process_start) 0 ''-DX''\<rparr>)
           (example_queue 0) = Inr g1
    \<and> conv_local g1 example_type 0 = Some ((stencil_source example_type, '' -DX''), ''conv_local'')
    \<and> at (program_header g1) 0 = [''#define N 4'']
    \<and> take 9 (stencil_source example_type) = ''1typedef ''
    \<and> gcompile (example_rt 64 1024) example_type ''cos''
           (process_start\<lparr>program_header := push (program_header process_start) 0 ''#define N 4'',
                           compile_options := push (compile_options process_start) 0 ''-DX''\<rparr>)
           (example_queue 0) = Inr g2
    \<and> g_conv_local g2 example_type ''cos'' 0 = Some ((gstencil_source example_type ''cos'', '' -DX''), ''conv_local'')
    \<and> at (program_header g2) 0 = [''#define N 4'']
    \<and> take 9 (gstencil_source example_type ''cos'') = ''1typedef ''"
proof -
  define g where "g = process_start\<lparr>program_header := push (program_header process_start) 0 ''#define N 4'',
                           compile_options := push (compile_options process_start) 0 ''-DX''\<rparr>"
  have "\<exists>g1. compile (example_rt 64 1024) example_type g (example_queue 0) = Inr g1"
    by (simp add: g_def compile_def build_sources_def get_compile_options_def get_def at_def push_def
         example_rt_def example_queue_def process_start_def)
  then obtain g1 where c: "compile (example_rt 64 1024) example_type g (example_queue 0) = Inr g1" ..
  have "\<exists>g2. gcompile (example_rt 64 1024) example_type ''cos'' g (example_queue 0) = Inr g2"
    by (simp add: g_def gcompile_def build_sources_def get_compile_options_def get_def at_def push_def
         example_rt_def example_queue_def process_start_def)
  then obtain g2 where c2: "gcompile (example_rt 64 1024) example_type ''cos'' g (example_queue 0) = Inr g2" ..
  have n: "\<not> compiled g example_type (queue_context (example_queue 0))"
          "\<not> g_compiled g example_type ''cos'' (queue_context (example_queue 0))"
    by (simp_all add: g_def process_start_def)
  note t = header_not_applied [of "example_rt 64 1024" example_type g "example_queue 0" g1 "''cos''" g2]
  from t c n(1) obtain dev0 devs where
    r: "context_devices (example_rt 64 1024) (queue_context (example_queue 0)) = dev0 # devs"
       "conv_local g1 example_type (queue_context (example_queue 0))
               = Some ((stencil_source example_type, '' '' @ fst (get (compile_options g) dev0)), ''conv_local'')"
    by blast
  from t c2 n(2) obtain dev0' devs' where
    r2: "context_devices (example_rt 64 1024) (queue_context (example_queue 0)) = dev0' # devs'"
       "g_conv_local g2 example_type ''cos'' (queue_context (example_queue 0))
           = Some ((gstencil_source example_type ''cos'', '' '' @ fst (get (compile_options g) dev0')), ''conv_local'')"
    by blast
  from t c n(1) have p1: "program_header g1 = program_header g" by blast
  from t c2 n(2) have p2: "program_header g2 = program_header g" by blast
  from t have s1: "take 9 (stencil_source example_type) = ''1typedef ''"
    and s2: "take 9 (gstencil_source example_type ''cos'') = ''1typedef ''" by blast+
  from r(1) have d0: "dev0 = 0" by (simp add: example_rt_def example_queue_def)
  from r2(1) have d0': "dev0' = 0" by (simp add: example_rt_def example_queue_def)
  have o: "fst (get (compile_options g) 0) = ''-DX''"
    by (simp add: g_def get_def at_def push_def process_start_def)
  have h: "at (program_header g) 0 = [''#define N 4'']"
    by (simp add: g_def at_def push_def process_start_def)
  from r(2) have k1: "conv_local g1 example_type 0 = Some ((stencil_source example_type, '' -DX''), ''conv_local'')"
    unfolding d0 o by (simp add: example_queue_def)
  from r2(2) have k2: "g_conv_local g2 example_type ''cos'' 0
        = Some ((gstencil_source example_type ''cos'', '' -DX''), ''conv_local'')"
    unfolding d0' o by (simp add: example_queue_def)
  have h1: "at (program_header g1) 0 = [''#define N 4'']" unfolding p1 by (rule h)
  have h2: "at (program_header g2) 0 = [''#define N 4'']" unfolding p2 by (rule h)
  from c k1 h1 s1 c2 k2 h2 s2 show ?thesis unfolding g_def by blast
qed

end
